theory Spec2Isabelle
  imports Main "HOL-Library.Word" "HOL-Library.List_Lexorder" "HOL-Library.Multiset"
begin

unbundle bit_operations_syntax

section \<open>Bytes and 64-bit integers\<close>

text \<open>
  The proxy server of metaetcd (package \<^verbatim>\<open>proxysvr\<close>) is written in Go. Its \<^verbatim>\<open>int64\<close> and
  \<^verbatim>\<open>uint64\<close> are 64-bit words here: \<open>+\<close> and \<open>-\<close> wrap around as Go's do, a signed
  comparison \<^verbatim>\<open>a > b\<close> of two \<^verbatim>\<open>int64\<close> is \<open>sint b < sint a\<close>, and the conversions
  \<^verbatim>\<open>uint64(x)\<close> and \<^verbatim>\<open>int64(x)\<close> keep the bits. A \<^verbatim>\<open>[]byte\<close> and a Go \<^verbatim>\<open>string\<close> are
  lists of bytes; \<^verbatim>\<open>bytes.Compare\<close> is the lexicographic order of such lists.
\<close>

type_synonym byte = "8 word"
type_synonym bytes = "byte list"
type_synonym int64 = "64 word"

text \<open>\<^verbatim>\<open>binary.LittleEndian.PutUint64(buf, v)\<close> on an 8-byte buffer.\<close>

definition PutUint64 :: "int64 \<Rightarrow> bytes" where
  "PutUint64 v = map (\<lambda>i. ucast (drop_bit (8 * i) v)) [0..<8]"

text \<open>
  \<^verbatim>\<open>binary.LittleEndian.Uint64(b)\<close> reads \<^verbatim>\<open>b[0]\<close> to \<^verbatim>\<open>b[7]\<close> and panics on a shorter
  slice; every caller below checks the length first or is given the panic as a branch.
\<close>

definition Uint64 :: "bytes \<Rightarrow> int64" where
  "Uint64 b = foldr (\<lambda>x acc. push_bit 8 acc OR ucast x) (take 8 b) 0"

definition bytes_of :: "string \<Rightarrow> bytes" where
  "bytes_of s = map (\<lambda>c. of_nat (of_char c)) s"

section \<open>Errors\<close>

text \<open>
  Every error return of the source is a value. \<open>Errorf\<close> is \<^verbatim>\<open>fmt.Errorf("...: %w", err)\<close>,
  which wraps; \<open>ErrorStr\<close> is a \<^verbatim>\<open>fmt.Errorf\<close> that wraps nothing. \<open>ErrKeyNotFound\<close>,
  \<open>ErrCompacted\<close> and \<open>ErrFutureRev\<close> are the errors of those names in etcd's
  \<^verbatim>\<open>rpctypes\<close>; \<open>ErrRPC\<close> stands for any other error of the etcd client (the code is
  opaque). \<open>Panic\<close> is a run-time panic
  of the handler: an index out of range, a slice bound out of range, a nil dereference.
\<close>

datatype error =
    ErrKeyNotFound
  | ErrCompacted
  | ErrFutureRev
  | ErrRPC nat
  | ErrInvalidCrossShardTxn
  | Errorf string error
  | ErrorStr string
  | Panic

fun errors_Is :: "error \<Rightarrow> error \<Rightarrow> bool" where
  "errors_Is (Errorf msg e) target = (Errorf msg e = target \<or> errors_Is e target)"
| "errors_Is e target = (e = target)"

section \<open>The wire protocol (etcdserverpb, mvccpb)\<close>

text \<open>
  Only the fields that the proxy reads or writes are kept. A response header always
  exists (etcd allocates one for every response and sub-response). Transactions nested
  in a transaction are left out of the data model.
\<close>

record ResponseHeader =
  Revision :: int64

record KeyValue =
  Key :: bytes
  CreateRevision :: int64
  ModRevision :: int64
  Version :: int64
  Value :: bytes

record RangeRequest =
  rq_Key :: bytes
  rq_RangeEnd :: bytes
  rq_Limit :: int64
  rq_Revision :: int64
  rq_CountOnly :: bool

record RangeResponse =
  rs_Header :: ResponseHeader
  rs_Kvs :: "KeyValue list"
  rs_More :: bool
  rs_Count :: int64

record PutRequest =
  pq_Key :: bytes
  pq_Value :: bytes
  pq_PrevKv :: bool
  pq_IgnoreValue :: bool

record PutResponse =
  ps_Header :: ResponseHeader
  ps_PrevKv :: "KeyValue option"

record DeleteRangeRequest =
  dq_Key :: bytes
  dq_RangeEnd :: bytes
  dq_PrevKv :: bool

record DeleteRangeResponse =
  ds_Header :: ResponseHeader
  ds_Deleted :: int64
  ds_PrevKvs :: "KeyValue list"

datatype CompareResult = EQUAL | GREATER | LESS | NOT_EQUAL

datatype TargetUnion =
    Compare_Version int64
  | Compare_CreateRevision int64
  | Compare_ModRevision int64
  | Compare_Value bytes

record Compare =
  cm_Result :: CompareResult
  cm_Key :: bytes
  cm_TargetUnion :: TargetUnion

datatype RequestOp =
    RequestRange RangeRequest
  | RequestPut PutRequest
  | RequestDeleteRange DeleteRangeRequest

datatype ResponseOp =
    ResponseRange RangeResponse
  | ResponsePut PutResponse
  | ResponseDeleteRange DeleteRangeResponse

record TxnRequest =
  tq_Compare :: "Compare list"
  tq_Success :: "RequestOp list"
  tq_Failure :: "RequestOp list"

record TxnResponse =
  ts_Header :: ResponseHeader
  ts_Succeeded :: bool
  ts_Responses :: "ResponseOp list"

record LeaseGrantRequest =
  lq_TTL :: int64
  lq_ID :: int64

record LeaseGrantResponse =
  ls_ID :: int64
  ls_TTL :: int64
  ls_Error :: string

section \<open>The scheme package\<close>

text \<open>
  The proxy calls the package \<^verbatim>\<open>internal/scheme\<close>, whose source is not available. Each
  function of it that the proxy calls is modelled from its description in the
  specification (section 4.1) and is marked so.
\<close>

text \<open>Modelled from the spec: \<^verbatim>\<open>scheme.MetaKey\<close>, the well-known meta-clock key. Its
  literal is not known; the theorems hold whatever its bytes are.\<close>

definition MetaKey :: bytes where
  "MetaKey = bytes_of ''/meta/clock''"

text \<open>The last 8 bytes of a value, read as a little-endian meta-rev.\<close>

definition suffixMetaRev :: "bytes \<Rightarrow> int64" where
  "suffixMetaRev v = Uint64 (drop (length v - 8) v)"

text \<open>Modelled from the spec: \<^verbatim>\<open>scheme.ResolveModRev(kv)\<close>: "if the value is \<open>\<ge>\<close> 8
  bytes, decode the last 8 bytes as meta-rev (little-endian) and overwrite
  \<^verbatim>\<open>kv.ModRevision\<close> with it; truncate the value to the original payload". The source
  mutates the kv in place; the model returns the new kv.\<close>

definition ResolveModRev :: "KeyValue \<Rightarrow> KeyValue" where
  "ResolveModRev kv =
     (if 8 \<le> length (Value kv)
      then kv\<lparr>ModRevision := suffixMetaRev (Value kv),
              Value := take (length (Value kv) - 8) (Value kv)\<rparr>
      else kv)"

text \<open>Modelled from the spec: \<^verbatim>\<open>scheme.ResolveMetaRev(kv)\<close>: "as above but returns the
  meta-rev". The specification does not say what a value shorter than 8 bytes gives;
  it is 0 here. The theorems about the clock and about \<^verbatim>\<open>Txn\<close> hold whatever this
  function computes; only the worked examples evaluate it.\<close>

definition ResolveMetaRev :: "KeyValue \<Rightarrow> int64" where
  "ResolveMetaRev kv = (if 8 \<le> length (Value kv) then suffixMetaRev (Value kv) else 0)"

text \<open>Modelled from the spec: \<^verbatim>\<open>scheme.AppendMetaRevToTxOps(buf, ops)\<close>: "for each put op
  in \<^verbatim>\<open>ops\<close>, append the 8-byte \<^verbatim>\<open>buf\<close> to its value". The source mutates the ops in
  place; the model returns the new list.\<close>

fun appendMetaRev :: "bytes \<Rightarrow> RequestOp \<Rightarrow> RequestOp" where
  "appendMetaRev buf (RequestPut p) = RequestPut (p\<lparr>pq_Value := pq_Value p @ buf\<rparr>)"
| "appendMetaRev buf op = op"

definition AppendMetaRevToTxOps :: "bytes \<Rightarrow> RequestOp list \<Rightarrow> RequestOp list" where
  "AppendMetaRevToTxOps buf ops = map (appendMetaRev buf) ops"

text \<open>The key an operation refers to.\<close>

fun opKey :: "RequestOp \<Rightarrow> bytes" where
  "opKey (RequestRange r) = rq_Key r"
| "opKey (RequestPut p) = pq_Key p"
| "opKey (RequestDeleteRange d) = dq_Key d"

text \<open>Modelled from the spec: \<^verbatim>\<open>scheme.ValidateTxComparisons(cmps)\<close> and
  \<^verbatim>\<open>scheme.ValidateTxOps(key, ops)\<close>: "verify that every key referenced by the
  transaction hashes to the same single owning key (the first key encountered becomes
  the txn's anchor); fail with invalid-cross-shard-txn otherwise. Return that anchor
  key." The anchor is \<open>None\<close> (Go's nil slice) until a key has been met.\<close>

fun validateKeys :: "bytes option \<Rightarrow> bytes list \<Rightarrow> error + bytes option" where
  "validateKeys key [] = Inr key"
| "validateKeys None (k # ks) = validateKeys (Some k) ks"
| "validateKeys (Some key) (k # ks) =
     (if k = key then validateKeys (Some key) ks else Inl ErrInvalidCrossShardTxn)"

definition ValidateTxComparisons :: "Compare list \<Rightarrow> error + bytes option" where
  "ValidateTxComparisons cmps = validateKeys None (map cm_Key cmps)"

definition ValidateTxOps :: "bytes option \<Rightarrow> RequestOp list \<Rightarrow> error + bytes option" where
  "ValidateTxOps key ops = validateKeys key (map opKey ops)"

text \<open>A comparison of a meta-rev that the current meta-rev of the key makes false.\<close>

fun compareHolds :: "CompareResult \<Rightarrow> int64 \<Rightarrow> int64 \<Rightarrow> bool" where
  "compareHolds EQUAL actual target = (actual = target)"
| "compareHolds GREATER actual target = (sint target < sint actual)"
| "compareHolds LESS actual target = (sint actual < sint target)"
| "compareHolds NOT_EQUAL actual target = (actual \<noteq> target)"

definition provablyFalse :: "int64 \<Rightarrow> Compare \<Rightarrow> bool" where
  "provablyFalse actual cmp =
     (case cm_TargetUnion cmp of
        Compare_ModRevision target \<Rightarrow> target \<noteq> 0 \<and> \<not> compareHolds (cm_Result cmp) actual target
      | _ \<Rightarrow> False)"

text \<open>Modelled from the spec: \<^verbatim>\<open>scheme.PreflightTxn(metaRev, req, currentKVsResp)\<close>: "given
  the member's current value for the anchor key, decide whether the txn's meta-rev
  comparisons would succeed. If any comparison is provably false, synthesize a failure
  TxnResponse with Succeeded = false and revision metaRev." It returns the meta-rev of
  the current kv as well, which the proxy only logs.\<close>

definition PreflightTxn :: "int64 \<Rightarrow> TxnRequest \<Rightarrow> RangeResponse \<Rightarrow> int64 \<times> TxnResponse option" where
  "PreflightTxn metaRev req resp =
     (case rs_Kvs resp of
        [] \<Rightarrow> (0, None)
      | kv # _ \<Rightarrow>
          (let modMetaRev = ResolveMetaRev kv in
           if list_ex (provablyFalse modMetaRev) (tq_Compare req)
           then (modMetaRev,
                 Some \<lparr>ts_Header = \<lparr>Revision = metaRev\<rparr>, ts_Succeeded = False, ts_Responses = []\<rparr>)
           else (modMetaRev, None)))"

section \<open>The coordinator, the members and the calls made to them\<close>

text \<open>
  A cluster (the coordinator or a member) is an etcd store outside the repository. It is
  the answers it gives: one function for each call of the etcd client that the proxy
  makes. The revision argument of a read is 0 for a read of the latest state (no
  \<^verbatim>\<open>WithRev\<close> option), as in the etcd client. The calls that one request of the proxy
  makes are collected in a trace, in the order in which they complete.
\<close>

record ClientSet =
  cs_Get :: "bytes \<Rightarrow> int64 \<Rightarrow> error + RangeResponse"
  cs_Range :: "RangeRequest \<Rightarrow> error + RangeResponse"
  cs_Txn :: "TxnRequest \<Rightarrow> error + TxnResponse"
  cs_LeaseGrant :: "LeaseGrantRequest \<Rightarrow> error + LeaseGrantResponse"

text \<open>\<open>co_Tick\<close> is the transaction of \<^verbatim>\<open>tick\<close>: a put of the meta-clock key with
  ignore-value, then a get of it.\<close>

record CoordinatorClientSet =
  co_Get :: "bytes \<Rightarrow> int64 \<Rightarrow> error + RangeResponse"
  co_Put :: "bytes \<Rightarrow> bytes \<Rightarrow> error + unit"
  co_Tick :: "error + TxnResponse"

datatype peer = Coordinator | Member nat

datatype rpc =
    RpcLock
  | RpcUnlock
  | RpcGet peer bytes int64
  | RpcPut peer bytes bytes
  | RpcTick
  | RpcRange nat RangeRequest
  | RpcTxn nat TxnRequest
  | RpcLeaseGrant nat LeaseGrantRequest

text \<open>A run of concurrent tasks leaves its results in an order that the program does not
  choose. \<open>permuteBy order xs\<close> is \<open>xs\<close> in the order that \<open>order\<close> gives: the positions
  that \<open>order\<close> names come first, in its order (a position out of range and the repetition
  of a position are skipped), and the positions that it does not name follow, in the order
  of \<open>xs\<close>. Every \<open>order\<close> gives a permutation of \<open>xs\<close> and every permutation of \<open>xs\<close> is
  given by some \<open>order\<close>; the empty \<open>order\<close> gives \<open>xs\<close> itself.\<close>

definition permuteBy :: "nat list \<Rightarrow> 'a list \<Rightarrow> 'a list" where
  "permuteBy order xs =
     (let first = filter (\<lambda>i. i < length xs) (remdups order);
          rest = filter (\<lambda>i. i \<notin> set first) [0..<length xs]
      in map (nth xs) (first @ rest))"

text \<open>Modelled from the spec: \<^verbatim>\<open>membership.Pool\<close>, the "read-only directory mapping keys to
  their owning member; iteration over all members". \<^verbatim>\<open>GetMemberForKey\<close> gives the owning
  member with its index, or nil. \<open>schedule\<close> is not a field of the pool: it is the order in
  which the calls of a fan-out over the members complete in the run under consideration,
  and a theorem about a server holds for every schedule unless it fixes one.\<close>

record Pool =
  clients :: "ClientSet list"
  owner :: "bytes \<Rightarrow> nat"
  schedule :: "nat list"

definition GetMemberForKey :: "Pool \<Rightarrow> bytes \<Rightarrow> (nat \<times> ClientSet) option" where
  "GetMemberForKey p key =
     (if owner p key < length (clients p) then Some (owner p key, clients p ! owner p key)
      else None)"

text \<open>The members with their indices, in the order in which their calls complete.\<close>

definition fanoutOrder :: "Pool \<Rightarrow> (nat \<times> ClientSet) list" where
  "fanoutOrder p = permuteBy (schedule p) (enumerate 0 (clients p))"

text \<open>Modelled from the spec: \<^verbatim>\<open>Pool.IterateMembers(ctx, fn)\<close>, the "parallel fan-out with
  error aggregation (first-error-wins and context cancellation of siblings)": "fan-out
  across members uses child tasks under an error-group: first error cancels the rest via
  shared context". The closures update what they have captured (the state \<open>st\<close>) under a
  mutex, so a parallel run leaves the state of the sequential run of the closures that
  succeed, in the order in which they take the mutex, and returns the first error. The
  model is that sequential run over the members in the order given (the callers give
  \<open>fanoutOrder\<close>): the members before the first one that fails are those whose closure
  succeeds in the run, and the calls to the members after it are cancelled, they leave no
  trace and no change of the state. Since the order is any permutation of the members,
  the error and the state of every parallel run are those of the model for some
  schedule.\<close>

fun IterateMembers ::
  "(nat \<times> ClientSet) list \<Rightarrow> (nat \<Rightarrow> ClientSet \<Rightarrow> 'st \<Rightarrow> (error + 'st) \<times> rpc list) \<Rightarrow> 'st
     \<Rightarrow> (error option \<times> 'st) \<times> rpc list" where
  "IterateMembers [] fn st = ((None, st), [])"
| "IterateMembers ((i, c) # cs) fn st =
     (case fn i c st of
        (Inl err, tr) \<Rightarrow> ((Some err, st), tr)
      | (Inr st', tr) \<Rightarrow> (case IterateMembers cs fn st' of (r, tr') \<Rightarrow> (r, tr @ tr')))"

record server =
  coordinator :: CoordinatorClientSet
  members :: Pool

section \<open>The clock service\<close>

text \<open>The closure that \<^verbatim>\<open>reconstituteClock\<close> runs on every member; its state is
  \<^verbatim>\<open>latestMetaRev\<close>.\<close>

definition scanMember :: "nat \<Rightarrow> ClientSet \<Rightarrow> int64 \<Rightarrow> (error + int64) \<times> rpc list" where
  "scanMember i client latestMetaRev =
     (case cs_Get client MetaKey 0 of
        Inl err \<Rightarrow> (Inl err, [RpcGet (Member i) MetaKey 0])
      | Inr r \<Rightarrow>
          (Inr (case rs_Kvs r of
                  [] \<Rightarrow> latestMetaRev
                | kv # _ \<Rightarrow>
                    if length (Value kv) < 8 then latestMetaRev
                    else (let rev = Uint64 (Value kv)
                          in if sint latestMetaRev < sint rev then rev else latestMetaRev)),
           [RpcGet (Member i) MetaKey 0]))"

text \<open>\<^verbatim>\<open>reconstituteClock\<close>. \<^verbatim>\<open>Lock\<close> is called first (the source does not look at
  its error) and the deferred \<^verbatim>\<open>Unlock\<close> runs on every path. The source drops the
  error that \<^verbatim>\<open>IterateMembers\<close> returns, and so does the model: after the failure of a
  member the function goes on with the greatest value read before it.\<close>

definition reconstituteClock :: "server \<Rightarrow> int64 \<Rightarrow> (error + int64) \<times> rpc list" where
  "reconstituteClock s delta =
     (case co_Get (coordinator s) MetaKey 0 of
        Inl err \<Rightarrow>
          (Inl (Errorf ''getting clock'' err), [RpcLock, RpcGet Coordinator MetaKey 0, RpcUnlock])
      | Inr resp \<Rightarrow>
          (case rs_Kvs resp of
             kv # _ \<Rightarrow> (Inr (ResolveMetaRev kv), [RpcLock, RpcGet Coordinator MetaKey 0, RpcUnlock])
           | [] \<Rightarrow>
               (case IterateMembers (fanoutOrder (members s)) scanMember 0 of
                  ((_, latest), tr) \<Rightarrow>
                    (let latestMetaRev = latest + delta;
                         buf = PutUint64 (latestMetaRev - 1);
                         calls = [RpcLock, RpcGet Coordinator MetaKey 0] @ tr
                                   @ [RpcPut Coordinator MetaKey buf, RpcUnlock]
                     in case co_Put (coordinator s) MetaKey buf of
                          Inl err \<Rightarrow> (Inl err, calls)
                        | Inr _ \<Rightarrow> (Inr latestMetaRev, calls)))))"

text \<open>\<^verbatim>\<open>tick\<close>. \<^verbatim>\<open>resp.Responses[1].GetResponseRange().Kvs[0]\<close> panics when the response has
  no second sub-response, when that is not a range response, or when it holds no kv.\<close>

definition tick :: "server \<Rightarrow> (error + int64) \<times> rpc list" where
  "tick s =
     (case co_Tick (coordinator s) of
        Inl err \<Rightarrow>
          if errors_Is err ErrKeyNotFound
          then (case reconstituteClock s 1 of (r, tr) \<Rightarrow> (r, RpcTick # tr))
          else (Inl (Errorf ''ticking clock'' err), [RpcTick])
      | Inr resp \<Rightarrow>
          (case ts_Responses resp of
             _ # ResponseRange rr # _ \<Rightarrow>
               (case rs_Kvs rr of
                  kv # _ \<Rightarrow> (Inr (ResolveMetaRev kv), [RpcTick])
                | [] \<Rightarrow> (Inl Panic, [RpcTick]))
           | _ \<Rightarrow> (Inl Panic, [RpcTick])))"

text \<open>\<^verbatim>\<open>now\<close>.\<close>

definition now :: "server \<Rightarrow> (error + int64) \<times> rpc list" where
  "now s =
     (case co_Get (coordinator s) MetaKey 0 of
        Inl err \<Rightarrow> (Inl (Errorf ''getting clock'' err), [RpcGet Coordinator MetaKey 0])
      | Inr resp \<Rightarrow>
          (case rs_Kvs resp of
             [] \<Rightarrow> (case reconstituteClock s 0 of (r, tr) \<Rightarrow> (r, RpcGet Coordinator MetaKey 0 # tr))
           | kv # _ \<Rightarrow> (Inr (ResolveMetaRev kv), [RpcGet Coordinator MetaKey 0])))"

section \<open>Txn\<close>

text \<open>\<^verbatim>\<open>resolveModComparison\<close>. The client is nil when the pool has no member for the key;
  \<^verbatim>\<open>client.ClientV3\<close> then panics. The argument \<open>metaRev\<close> is the target of the
  comparison. The answer is the member-local mod-rev and, on a failed preflight, the
  synthesized response.\<close>

definition resolveModComparison ::
  "(nat \<times> ClientSet) option \<Rightarrow> bytes \<Rightarrow> int64 \<Rightarrow> TxnRequest
     \<Rightarrow> (error + int64 \<times> TxnResponse option) \<times> rpc list" where
  "resolveModComparison client key metaRev req =
     (case client of
        None \<Rightarrow> (Inl Panic, [])
      | Some (i, c) \<Rightarrow>
          (case cs_Get c key 0 of
             Inl err \<Rightarrow> (Inl err, [RpcGet (Member i) key 0])
           | Inr resp \<Rightarrow>
               (case rs_Kvs resp of
                  [] \<Rightarrow> (Inr (0, None), [RpcGet (Member i) key 0])
                | kv # _ \<Rightarrow>
                    (case PreflightTxn metaRev req resp of
                       (modMetaRev, Some failureResp) \<Rightarrow>
                         (Inr (0, Some failureResp), [RpcGet (Member i) key 0])
                     | (modMetaRev, None) \<Rightarrow>
                         (Inr (ModRevision kv, None), [RpcGet (Member i) key 0])))))"

text \<open>The loop of \<^verbatim>\<open>Txn\<close> over \<^verbatim>\<open>req.Compare\<close>. It rewrites the comparisons in place:
  \<open>done\<close> are the comparisons met so far, as rewritten, and the request that
  \<^verbatim>\<open>resolveModComparison\<close> is given holds them. The loop ends with the synthesized response
  of a failed preflight or with the rewritten comparisons.\<close>

datatype preflight = ShortCircuit TxnResponse | Resolved "Compare list"

fun resolveComparisons ::
  "(nat \<times> ClientSet) option \<Rightarrow> bytes \<Rightarrow> TxnRequest \<Rightarrow> Compare list \<Rightarrow> Compare list
     \<Rightarrow> (error + preflight) \<times> rpc list" where
  "resolveComparisons client key req done [] = (Inr (Resolved done), [])"
| "resolveComparisons client key req done (op # rest) =
     (case cm_TargetUnion op of
        Compare_ModRevision r \<Rightarrow>
          if r = 0 then resolveComparisons client key req (done @ [op]) rest
          else (case resolveModComparison client key r (req\<lparr>tq_Compare := done @ op # rest\<rparr>) of
                  (Inl err, tr) \<Rightarrow> (Inl err, tr)
                | (Inr (memberRev, Some resp), tr) \<Rightarrow> (Inr (ShortCircuit resp), tr)
                | (Inr (memberRev, None), tr) \<Rightarrow>
                    (case resolveComparisons client key req
                            (done @ [op\<lparr>cm_TargetUnion := Compare_ModRevision memberRev\<rparr>]) rest of
                       (res, tr') \<Rightarrow> (res, tr @ tr')))
      | _ \<Rightarrow> resolveComparisons client key req (done @ [op]) rest)"

text \<open>The three validations at the head of \<^verbatim>\<open>Txn\<close>, each given the anchor of the one
  before.\<close>

definition validateTxn :: "TxnRequest \<Rightarrow> error + bytes option" where
  "validateTxn req =
     (case ValidateTxComparisons (tq_Compare req) of
        Inl err \<Rightarrow> Inl err
      | Inr key \<Rightarrow>
          (case ValidateTxOps key (tq_Success req) of
             Inl err \<Rightarrow> Inl err
           | Inr key' \<Rightarrow> ValidateTxOps key' (tq_Failure req)))"

text \<open>The loop over the \<^verbatim>\<open>PrevKvs\<close> of a delete-range response: each turn resolves one kv
  and sets the header revision of the sub-response.\<close>

fun resolvePrevKvs :: "int64 \<Rightarrow> KeyValue list \<Rightarrow> ResponseHeader \<Rightarrow> KeyValue list \<times> ResponseHeader" where
  "resolvePrevKvs metaRev [] h = ([], h)"
| "resolvePrevKvs metaRev (kv # kvs) h =
     (case resolvePrevKvs metaRev kvs (h\<lparr>Revision := metaRev\<rparr>) of
        (kvs', h') \<Rightarrow> (ResolveModRev kv # kvs', h'))"

text \<open>The body of the loop of \<^verbatim>\<open>Txn\<close> over \<^verbatim>\<open>resp.Responses\<close>. A put response without a
  previous kv has a nil \<^verbatim>\<open>PrevKv\<close>, which stays nil.\<close>

fun rewriteResponse :: "int64 \<Rightarrow> ResponseOp \<Rightarrow> ResponseOp" where
  "rewriteResponse metaRev (ResponsePut p) =
     ResponsePut (p\<lparr>ps_PrevKv := map_option ResolveModRev (ps_PrevKv p),
                    ps_Header := (ps_Header p)\<lparr>Revision := metaRev\<rparr>\<rparr>)"
| "rewriteResponse metaRev (ResponseRange p) =
     ResponseRange (p\<lparr>rs_Kvs := map ResolveModRev (rs_Kvs p)\<rparr>)"
| "rewriteResponse metaRev (ResponseDeleteRange p) =
     (case resolvePrevKvs metaRev (ds_PrevKvs p) (ds_Header p) of
        (kvs, h) \<Rightarrow> ResponseDeleteRange (p\<lparr>ds_PrevKvs := kvs, ds_Header := h\<rparr>))"

text \<open>The request that \<^verbatim>\<open>Txn\<close> sends to the member: the comparisons as rewritten, the
  meta-rev appended to the puts of both branches, and then the put of the meta-clock key
  appended to both branches.\<close>

definition updateClockOp :: "bytes \<Rightarrow> RequestOp" where
  "updateClockOp buf =
     RequestPut \<lparr>pq_Key = MetaKey, pq_Value = buf, pq_PrevKv = False, pq_IgnoreValue = False\<rparr>"

definition memberTxn :: "TxnRequest \<Rightarrow> Compare list \<Rightarrow> int64 \<Rightarrow> TxnRequest" where
  "memberTxn req cmps metaRev =
     (let buf = PutUint64 metaRev
      in \<lparr>tq_Compare = cmps,
          tq_Success = AppendMetaRevToTxOps buf (tq_Success req) @ [updateClockOp buf],
          tq_Failure = AppendMetaRevToTxOps buf (tq_Failure req) @ [updateClockOp buf]\<rparr>)"

text \<open>The key that \<^verbatim>\<open>Txn\<close> looks the member up with: the anchor, or the empty key (the
  nil slice) when the transaction refers to no key.\<close>

definition anchorKey :: "bytes option \<Rightarrow> bytes" where
  "anchorKey anchor = (case anchor of None \<Rightarrow> [] | Some k \<Rightarrow> k)"

text \<open>\<^verbatim>\<open>Txn\<close>. A nil client panics at the first call made through it: in
  \<^verbatim>\<open>resolveModComparison\<close>, or else at \<^verbatim>\<open>client.KV.Txn\<close>, after the tick.\<close>

definition Txn :: "server \<Rightarrow> TxnRequest \<Rightarrow> (error + TxnResponse) \<times> rpc list" where
  "Txn s req =
     (case validateTxn req of
        Inl err \<Rightarrow> (Inl err, [])
      | Inr anchor \<Rightarrow>
          (let key = anchorKey anchor;
               client = GetMemberForKey (members s) key
           in case resolveComparisons client key req [] (tq_Compare req) of
                (Inl err, tr) \<Rightarrow> (Inl err, tr)
              | (Inr (ShortCircuit resp), tr) \<Rightarrow> (Inr resp, tr)
              | (Inr (Resolved cmps), tr) \<Rightarrow>
                  (case tick s of
                     (Inl err, tr') \<Rightarrow> (Inl err, tr @ tr')
                   | (Inr metaRev, tr') \<Rightarrow>
                       (case client of
                          None \<Rightarrow> (Inl Panic, tr @ tr')
                        | Some (i, c) \<Rightarrow>
                            (case cs_Txn c (memberTxn req cmps metaRev) of
                               Inl err \<Rightarrow>
                                 (Inl err, tr @ tr' @ [RpcTxn i (memberTxn req cmps metaRev)])
                             | Inr resp \<Rightarrow>
                                 (Inr (resp\<lparr>ts_Responses :=
                                               map (rewriteResponse metaRev) (ts_Responses resp),
                                             ts_Header := \<lparr>Revision = metaRev\<rparr>\<rparr>),
                                  tr @ tr' @ [RpcTxn i (memberTxn req cmps metaRev)]))))))"

section \<open>LeaseGrant\<close>

text \<open>The closure that \<^verbatim>\<open>LeaseGrant\<close> runs on every member.\<close>

definition grantMember ::
  "LeaseGrantRequest \<Rightarrow> nat \<Rightarrow> ClientSet \<Rightarrow> unit \<Rightarrow> (error + unit) \<times> rpc list" where
  "grantMember req i c u =
     (case cs_LeaseGrant c req of
        Inl err \<Rightarrow> (Inl err, [RpcLeaseGrant i req])
      | Inr resp \<Rightarrow>
          if ls_Error resp \<noteq> []
          then (Inl (ErrorStr (''lease error: '' @ ls_Error resp)), [RpcLeaseGrant i req])
          else (Inr (), [RpcLeaseGrant i req]))"

text \<open>\<^verbatim>\<open>LeaseGrant\<close>. \<open>Int63\<close> is the value that \<^verbatim>\<open>rand.Int63()\<close> draws: a non-negative
  63-bit integer, so any value from 0 to \<open>2 ^ 63 - 1\<close>.\<close>

definition LeaseGrant ::
  "server \<Rightarrow> 63 word \<Rightarrow> LeaseGrantRequest \<Rightarrow> (error + LeaseGrantResponse) \<times> rpc list" where
  "LeaseGrant s Int63 req =
     (let req' = (if lq_ID req = 0 then req\<lparr>lq_ID := ucast Int63\<rparr> else req)
      in case IterateMembers (fanoutOrder (members s)) (grantMember req') () of
           ((Some err, u), tr) \<Rightarrow> (Inl err, tr)
         | ((None, u), tr) \<Rightarrow>
             (Inr \<lparr>ls_ID = lq_ID req', ls_TTL = lq_TTL req', ls_Error = []\<rparr>, tr))"

section \<open>The revision resolver\<close>

text \<open>\<^verbatim>\<open>getMemberRev\<close>. The loop may run forever, so the model is a partial function:
  \<open>None\<close> is a run that does not return. \<open>zeroKeyRev\<close> is the probe; the read is made
  as of the probe when the probe is positive, and of the latest state otherwise (then no
  \<^verbatim>\<open>WithRev\<close> option is given). \<^verbatim>\<open>binary.LittleEndian.Uint64\<close> panics on a value shorter
  than 8 bytes. The count of the turns, which goes to a histogram only, is the number of
  reads in the trace.\<close>

partial_function (option) getMemberRevLoop ::
  "peer \<Rightarrow> (bytes \<Rightarrow> int64 \<Rightarrow> error + RangeResponse) \<Rightarrow> int64 \<Rightarrow> int64 \<Rightarrow> rpc list
     \<Rightarrow> ((error + int64) \<times> rpc list) option" where
  "getMemberRevLoop p get metaRev zeroKeyRev tr =
     (let r = (if 0 < sint zeroKeyRev then zeroKeyRev else 0);
          tr' = tr @ [RpcGet p MetaKey r]
      in case get MetaKey r of
           Inl err \<Rightarrow> Some (Inl err, tr')
         | Inr resp \<Rightarrow>
             (case rs_Kvs resp of
                [] \<Rightarrow> Some (Inr (Revision (rs_Header resp)), tr')
              | kv # _ \<Rightarrow>
                  if length (Value kv) < 8 then Some (Inl Panic, tr')
                  else if sint metaRev < sint (Uint64 (Value kv))
                  then getMemberRevLoop p get metaRev (ModRevision kv - 1) tr'
                  else Some (Inr (ModRevision kv), tr')))"

declare getMemberRevLoop.simps [code]

definition getMemberRev ::
  "peer \<Rightarrow> (bytes \<Rightarrow> int64 \<Rightarrow> error + RangeResponse) \<Rightarrow> int64
     \<Rightarrow> ((error + int64) \<times> rpc list) option" where
  "getMemberRev p get metaRev = getMemberRevLoop p get metaRev 0 []"

section \<open>Range\<close>

text \<open>\<^verbatim>\<open>rangeWithClient\<close>. It adds the answer of one member to the response \<open>resp\<close> and
  returns the response; the mutex only orders the appends. A nil client panics.\<close>

definition rangeWithClient ::
  "RangeRequest \<Rightarrow> RangeResponse \<Rightarrow> int64 \<Rightarrow> (nat \<times> ClientSet) option
     \<Rightarrow> ((error + RangeResponse) \<times> rpc list) option" where
  "rangeWithClient req resp metaRev client =
     (case client of
        None \<Rightarrow> Some (Inl Panic, [])
      | Some (i, c) \<Rightarrow>
          (case getMemberRev (Member i) (cs_Get c) metaRev of
             None \<Rightarrow> None
           | Some (Inl err, tr) \<Rightarrow> Some (Inl err, tr)
           | Some (Inr memberRev, tr) \<Rightarrow>
               (let reqCopy = req\<lparr>rq_Revision := memberRev\<rparr>
                in case cs_Range c reqCopy of
                     Inl err \<Rightarrow>
                       Some (Inl (Errorf ''ranging at member rev'' err), tr @ [RpcRange i reqCopy])
                   | Inr r \<Rightarrow>
                       Some (Inr (resp\<lparr>rs_Count := rs_Count resp + rs_Count r,
                                       rs_Kvs := (if rq_CountOnly req then rs_Kvs resp
                                                  else rs_Kvs resp @ map ResolveModRev (rs_Kvs r))\<rparr>),
                             tr @ [RpcRange i reqCopy]))))"

text \<open>Modelled from the spec: \<^verbatim>\<open>Pool.IterateMembers(ctx, fn)\<close> again, for a closure that
  may fail to return: the same sequential run over the members in the order in which
  their calls complete, which does not return when a call of the closure does not.\<close>

fun IterateMembersOpt ::
  "(nat \<times> ClientSet) list \<Rightarrow> (nat \<Rightarrow> ClientSet \<Rightarrow> 'st \<Rightarrow> ((error + 'st) \<times> rpc list) option) \<Rightarrow> 'st
     \<Rightarrow> ((error option \<times> 'st) \<times> rpc list) option" where
  "IterateMembersOpt [] fn st = Some ((None, st), [])"
| "IterateMembersOpt ((i, c) # cs) fn st =
     (case fn i c st of
        None \<Rightarrow> None
      | Some (Inl err, tr) \<Rightarrow> Some ((Some err, st), tr)
      | Some (Inr st', tr) \<Rightarrow>
          (case IterateMembersOpt cs fn st' of
             None \<Rightarrow> None
           | Some (r, tr') \<Rightarrow> Some (r, tr @ tr')))"

text \<open>The meta-rev of a range request: the revision asked for, or \<^verbatim>\<open>now()\<close>.\<close>

definition rangeMetaRev :: "server \<Rightarrow> RangeRequest \<Rightarrow> (error + int64) \<times> rpc list" where
  "rangeMetaRev s req = (if rq_Revision req \<noteq> 0 then (Inr (rq_Revision req), []) else now s)"

text \<open>The fan-out of a range read over all members, from the empty response.\<close>

definition rangeFanout ::
  "server \<Rightarrow> RangeRequest \<Rightarrow> int64 \<Rightarrow> ((error option \<times> RangeResponse) \<times> rpc list) option" where
  "rangeFanout s req metaRev =
     IterateMembersOpt (fanoutOrder (members s))
       (\<lambda>i c resp. rangeWithClient req resp metaRev (Some (i, c)))
       \<lparr>rs_Header = \<lparr>Revision = metaRev\<rparr>, rs_Kvs = [], rs_More = False, rs_Count = 0\<rparr>"

text \<open>\<^verbatim>\<open>sort.Slice(resp.Kvs, less)\<close> with \<^verbatim>\<open>less\<close> comparing the keys by \<^verbatim>\<open>bytes.Compare\<close>.
  \<^verbatim>\<open>sort.Slice\<close> is not stable: it leaves the kvs in the order of their keys, and those of
  equal keys (every member may hold the same key) in an order that the caller does not
  choose. The result is the stable sort of some permutation of the kvs, and \<open>ties\<close> names
  that permutation: every \<open>ties\<close> gives a result that \<^verbatim>\<open>sort.Slice\<close> may leave, and every such
  result is given by some \<open>ties\<close>.\<close>

definition sortSlice :: "nat list \<Rightarrow> KeyValue list \<Rightarrow> KeyValue list" where
  "sortSlice ties kvs = sort_key Key (permuteBy ties kvs)"

text \<open>\<^verbatim>\<open>Range\<close>, in a run where \<^verbatim>\<open>sort.Slice\<close> breaks the ties as \<open>ties\<close> says. After the
  fan-out the kvs are sorted and cut whether or not a member has failed, and the error is
  looked at afterwards. \<^verbatim>\<open>int64(len(resp.Kvs))\<close> is the length itself. The test of the
  source is \<^verbatim>\<open>req.Limit != 0\<close>, so a negative limit enters the cut, where
  \<^verbatim>\<open>resp.Kvs[:req.Limit]\<close> panics.\<close>

definition Range ::
  "server \<Rightarrow> nat list \<Rightarrow> RangeRequest \<Rightarrow> ((error + RangeResponse) \<times> rpc list) option" where
  "Range s ties req =
     (case rangeMetaRev s req of
        (Inl err, tr) \<Rightarrow> Some (Inl err, tr)
      | (Inr metaRev, tr) \<Rightarrow>
          if rq_RangeEnd req = []
          then (case rangeWithClient req
                       \<lparr>rs_Header = \<lparr>Revision = metaRev\<rparr>, rs_Kvs = [], rs_More = False,
                        rs_Count = 0\<rparr>
                       metaRev (GetMemberForKey (members s) (rq_Key req)) of
                  None \<Rightarrow> None
                | Some (r, tr') \<Rightarrow> Some (r, tr @ tr'))
          else (case rangeFanout s req metaRev of
                  None \<Rightarrow> None
                | Some ((err, resp), tr') \<Rightarrow>
                    if rq_Limit req \<noteq> 0 \<and> sint (rq_Limit req) < int (length (rs_Kvs resp))
                    then (if sint (rq_Limit req) < 0 then Some (Inl Panic, tr @ tr')
                          else (case err of
                                  Some e \<Rightarrow> Some (Inl e, tr @ tr')
                                | None \<Rightarrow>
                                    Some (Inr (resp\<lparr>rs_Kvs := take (nat (sint (rq_Limit req)))
                                                                (sortSlice ties (rs_Kvs resp)),
                                                    rs_More := True\<rparr>),
                                          tr @ tr')))
                    else (case err of
                            Some e \<Rightarrow> Some (Inl e, tr @ tr')
                          | None \<Rightarrow> Some (Inr resp, tr @ tr'))))"

section \<open>Terms of the claims about the clock\<close>

text \<open>The meta-clock value that a member holds, as \<^verbatim>\<open>reconstituteClock\<close> decodes it: the
  first 8 bytes of the value of the member's meta-clock key, when the key is there and
  the value has 8 bytes or more.\<close>

definition clockValue :: "ClientSet \<Rightarrow> int64 list" where
  "clockValue c =
     (case cs_Get c MetaKey 0 of
        Inl err \<Rightarrow> []
      | Inr r \<Rightarrow>
          (case rs_Kvs r of
             [] \<Rightarrow> []
           | kv # _ \<Rightarrow> if length (Value kv) < 8 then [] else [Uint64 (Value kv)]))"

definition memberClockValues :: "server \<Rightarrow> int64 list" where
  "memberClockValues s = concat (map clockValue (clients (members s)))"

text \<open>Every member answers the read of its meta-clock key.\<close>

definition readable :: "ClientSet \<Rightarrow> bool" where
  "readable c = (case cs_Get c MetaKey 0 of Inl err \<Rightarrow> False | Inr r \<Rightarrow> True)"

definition membersReadable :: "server \<Rightarrow> bool" where
  "membersReadable s = list_all readable (clients (members s))"

section \<open>Terms of the claims about Txn\<close>

text \<open>The keys that a transaction refers to: those of its comparisons and of the
  operations of both branches. They resolve to one anchor when no two of them differ.\<close>

definition txnKeys :: "TxnRequest \<Rightarrow> bytes list" where
  "txnKeys req =
     map cm_Key (tq_Compare req) @ map opKey (tq_Success req) @ map opKey (tq_Failure req)"

definition singleAnchor :: "TxnRequest \<Rightarrow> bool" where
  "singleAnchor req = (\<forall>k\<in>set (txnKeys req). \<forall>k'\<in>set (txnKeys req). k = k')"

text \<open>A call that sends a transaction to a member.\<close>

fun isTxnCall :: "rpc \<Rightarrow> bool" where
  "isTxnCall (RpcTxn i r) = True"
| "isTxnCall c = False"

text \<open>A branch as sent to the member, against the branch of the request: every operation
  is there in its place, a put with the 8 bytes of the meta-rev appended to its value,
  any other operation as it was; one operation follows them, the put of the 8 bytes on
  the meta-clock key.\<close>

definition branchSent :: "int64 \<Rightarrow> RequestOp list \<Rightarrow> RequestOp list \<Rightarrow> bool" where
  "branchSent metaRev orig sent \<longleftrightarrow>
     length sent = Suc (length orig) \<and>
     last sent = RequestPut \<lparr>pq_Key = MetaKey, pq_Value = PutUint64 metaRev, pq_PrevKv = False,
                             pq_IgnoreValue = False\<rparr> \<and>
     (\<forall>j<length orig.
        case orig ! j of
          RequestPut p \<Rightarrow> sent ! j = RequestPut (p\<lparr>pq_Value := pq_Value p @ PutUint64 metaRev\<rparr>)
        | op \<Rightarrow> sent ! j = op)"

text \<open>A comparison of a mod-rev with its target set to 0; any other comparison as it is.\<close>

definition zeroTarget :: "Compare \<Rightarrow> Compare" where
  "zeroTarget cmp =
     (case cm_TargetUnion cmp of
        Compare_ModRevision r \<Rightarrow> cmp\<lparr>cm_TargetUnion := Compare_ModRevision 0\<rparr>
      | _ \<Rightarrow> cmp)"

text \<open>A comparison of a mod-rev with a target that is not 0: the comparisons that
  \<^verbatim>\<open>Txn\<close> resolves.\<close>

definition metaRevComparison :: "Compare \<Rightarrow> bool" where
  "metaRevComparison cmp =
     (case cm_TargetUnion cmp of Compare_ModRevision r \<Rightarrow> r \<noteq> 0 | _ \<Rightarrow> False)"

section \<open>Terms of the claim about the revision resolver\<close>

text \<open>How a member that is an etcd store answers the reads of its meta-clock key: every
  kv has a mod-rev of 2 or more, and a read as of a revision \<open>r\<close> gives the kv as it was
  at \<open>r\<close>, with a mod-rev of \<open>r\<close> or less.\<close>

definition mvccReads :: "(bytes \<Rightarrow> int64 \<Rightarrow> error + RangeResponse) \<Rightarrow> bool" where
  "mvccReads get \<longleftrightarrow>
     (\<forall>r resp kv kvs. get MetaKey r = Inr resp \<and> rs_Kvs resp = kv # kvs \<longrightarrow>
        1 < sint (ModRevision kv) \<and> (0 < sint r \<longrightarrow> sint (ModRevision kv) \<le> sint r))"

text \<open>
  The state of a member, as far as its meta-clock key goes. A member is an etcd store,
  which is outside the repository: a multi-version store whose revision starts at 1 and
  grows by 1 with every write. Its state is the list of its writes, the oldest first
  (each a put of the meta-clock key, a delete of it, or a write of other keys only), and
  the revision up to which it has been compacted. The write at position \<open>n\<close> of the list
  makes the revision \<open>n + 2\<close>.
\<close>

datatype clockWrite = ClockPut bytes | ClockDelete | OtherWrite

record etcdMember =
  writes :: "clockWrite list"
  compactRev :: nat

text \<open>The kv of the meta-clock key after the writes \<open>ws\<close>, made on a store at revision
  \<open>n\<close> that holds \<open>kv\<close>.\<close>

fun clockAfter :: "clockWrite list \<Rightarrow> nat \<Rightarrow> KeyValue option \<Rightarrow> KeyValue option" where
  "clockAfter [] n kv = kv"
| "clockAfter (ClockPut v # ws) n kv =
     clockAfter ws (Suc n)
       (Some \<lparr>Key = MetaKey,
              CreateRevision = (case kv of None \<Rightarrow> of_nat (Suc n) | Some k \<Rightarrow> CreateRevision k),
              ModRevision = of_nat (Suc n),
              Version = (case kv of None \<Rightarrow> 1 | Some k \<Rightarrow> Version k + 1),
              Value = v\<rparr>)"
| "clockAfter (ClockDelete # ws) n kv = clockAfter ws (Suc n) None"
| "clockAfter (OtherWrite # ws) n kv = clockAfter ws (Suc n) kv"

text \<open>The answer of the member to a read of a key as of the revision \<open>r\<close>, or of the
  latest state when \<open>r\<close> is not positive: an error for a revision that is still to
  come or that has been compacted, and else the kv of the meta-clock key as it was
  then, under the header of the current revision. The other keys are left out.\<close>

definition etcdGet :: "etcdMember \<Rightarrow> bytes \<Rightarrow> int64 \<Rightarrow> error + RangeResponse" where
  "etcdGet m key r =
     (let cur = Suc (length (writes m));
          at = (if sint r \<le> 0 then cur else nat (sint r));
          kvs = (if key = MetaKey
                 then (case clockAfter (take (at - 1) (writes m)) 1 None of
                         None \<Rightarrow> [] | Some kv \<Rightarrow> [kv])
                 else [])
      in if cur < at then Inl ErrFutureRev
         else if at < compactRev m then Inl ErrCompacted
         else Inr \<lparr>rs_Header = \<lparr>Revision = of_nat cur\<rparr>, rs_Kvs = kvs, rs_More = False,
                   rs_Count = of_nat (length kvs)\<rparr>)"

section \<open>Terms of the claim about Range\<close>

text \<open>The kvs that one member adds to a range read at the meta-rev \<open>metaRev\<close>: those of
  its answer at its own revision for that meta-rev, with their mod-revs resolved; and
  the kvs merged across all members, in the order in which the members answer.\<close>

definition memberKvs :: "RangeRequest \<Rightarrow> int64 \<Rightarrow> nat \<times> ClientSet \<Rightarrow> KeyValue list" where
  "memberKvs req metaRev ic =
     (case getMemberRev (Member (fst ic)) (cs_Get (snd ic)) metaRev of
        Some (Inr memberRev, tr) \<Rightarrow>
          (case cs_Range (snd ic) (req\<lparr>rq_Revision := memberRev\<rparr>) of
             Inl err \<Rightarrow> []
           | Inr r \<Rightarrow> map ResolveModRev (rs_Kvs r))
      | _ \<Rightarrow> [])"

definition mergedKvs :: "server \<Rightarrow> RangeRequest \<Rightarrow> int64 \<Rightarrow> KeyValue list" where
  "mergedKvs s req metaRev =
     (if rq_CountOnly req then []
      else concat (map (memberKvs req metaRev) (fanoutOrder (members s))))"

section \<open>Example clusters\<close>

text \<open>A kv of the meta-clock key, and a store that holds the given kvs at the given
  revision and answers a read of a key at its latest state.\<close>

definition clockKv :: "int64 \<Rightarrow> int64 \<Rightarrow> KeyValue" where
  "clockKv modRev v =
     \<lparr>Key = MetaKey, CreateRevision = 2, ModRevision = modRev, Version = 1, Value = PutUint64 v\<rparr>"

definition storeGet :: "int64 \<Rightarrow> KeyValue list \<Rightarrow> bytes \<Rightarrow> int64 \<Rightarrow> error + RangeResponse" where
  "storeGet hrev kvs key r =
     Inr \<lparr>rs_Header = \<lparr>Revision = hrev\<rparr>, rs_Kvs = filter (\<lambda>kv. Key kv = key) kvs,
          rs_More = False, rs_Count = of_nat (length (filter (\<lambda>kv. Key kv = key) kvs))\<rparr>"

definition exMember :: "int64 \<Rightarrow> KeyValue list \<Rightarrow> ClientSet" where
  "exMember hrev kvs =
     \<lparr>cs_Get = storeGet hrev kvs,
      cs_Range = (\<lambda>req. Inr \<lparr>rs_Header = \<lparr>Revision = hrev\<rparr>, rs_Kvs = kvs, rs_More = False,
                              rs_Count = of_nat (length kvs)\<rparr>),
      cs_Txn = (\<lambda>req. Inr \<lparr>ts_Header = \<lparr>Revision = hrev + 1\<rparr>, ts_Succeeded = True,
                            ts_Responses = []\<rparr>),
      cs_LeaseGrant = (\<lambda>req. Inr \<lparr>ls_ID = lq_ID req, ls_TTL = lq_TTL req, ls_Error = []\<rparr>)\<rparr>"

text \<open>A coordinator: with the meta-clock kv, its tick answers with the kv after the
  put; without, with key-not-found.\<close>

definition exCoordinator :: "KeyValue option \<Rightarrow> CoordinatorClientSet" where
  "exCoordinator clock =
     \<lparr>co_Get = storeGet 1 (case clock of None \<Rightarrow> [] | Some kv \<Rightarrow> [kv]),
      co_Put = (\<lambda>k v. Inr ()),
      co_Tick =
        (case clock of
           None \<Rightarrow> Inl ErrKeyNotFound
         | Some kv \<Rightarrow>
             Inr \<lparr>ts_Header = \<lparr>Revision = ModRevision kv + 1\<rparr>, ts_Succeeded = True,
                  ts_Responses =
                    [ResponsePut \<lparr>ps_Header = \<lparr>Revision = ModRevision kv + 1\<rparr>, ps_PrevKv = None\<rparr>,
                     ResponseRange
                       \<lparr>rs_Header = \<lparr>Revision = ModRevision kv + 1\<rparr>,
                        rs_Kvs = [kv\<lparr>ModRevision := ModRevision kv + 1, Version := Version kv + 1\<rparr>],
                        rs_More = False, rs_Count = 1\<rparr>]\<rparr>)\<rparr>"

text \<open>A server in a run in which the members answer a fan-out in the order of the pool.\<close>

definition exServer :: "KeyValue option \<Rightarrow> ClientSet list \<Rightarrow> server" where
  "exServer clock ms =
     \<lparr>coordinator = exCoordinator clock,
      members = \<lparr>clients = ms, owner = (\<lambda>key. if key = bytes_of ''a'' then 0 else 1),
                 schedule = []\<rparr>\<rparr>"

text \<open>The clock is lost and two members hold the meta-clock values 5 and 9.\<close>

definition lostClockServer :: server where
  "lostClockServer = exServer None [exMember 7 [clockKv 7 5], exMember 4 [clockKv 4 9]]"


text \<open>A member that cannot be reached: its reads fail. The clock is lost, member 0 cannot
  be reached and member 1 holds the meta-clock value 9.\<close>

definition unreachableMember :: ClientSet where
  "unreachableMember = (exMember 7 [clockKv 7 5])\<lparr>cs_Get := (\<lambda>key r. Inl (ErrRPC 14))\<rparr>"

definition unreachableServer :: server where
  "unreachableServer = exServer None [unreachableMember, exMember 4 [clockKv 4 9]]"

text \<open>The clock is there.\<close>

definition runningServer :: server where
  "runningServer = exServer (Some (clockKv 12 10)) [exMember 7 [clockKv 7 5], exMember 4 [clockKv 4 9]]"

text \<open>A fresh system: no clock on the coordinator, no member has been written to.\<close>

definition freshServer :: server where
  "freshServer = exServer None [exMember 1 [], exMember 1 []]"

text \<open>Operations and transactions on the keys \<open>a\<close> (owned by member 0) and \<open>b\<close> (owned
  by member 1).\<close>

definition putOp :: "string \<Rightarrow> string \<Rightarrow> RequestOp" where
  "putOp k v =
     RequestPut \<lparr>pq_Key = bytes_of k, pq_Value = bytes_of v, pq_PrevKv = False,
                 pq_IgnoreValue = False\<rparr>"

definition deleteOp :: "string \<Rightarrow> RequestOp" where
  "deleteOp k = RequestDeleteRange \<lparr>dq_Key = bytes_of k, dq_RangeEnd = [], dq_PrevKv = False\<rparr>"

definition crossShardTxn :: TxnRequest where
  "crossShardTxn =
     \<lparr>tq_Compare = [], tq_Success = [putOp ''a'' ''x'', putOp ''b'' ''y''], tq_Failure = []\<rparr>"

text \<open>A member that answers a transaction of one delete and the put of the clock as etcd
  does when the previous kvs are not asked for: two sub-responses, each with the
  member's own revision in its header, and no previous kv.\<close>

definition deletingMember :: ClientSet where
  "deletingMember =
     (exMember 7 [clockKv 7 5])
       \<lparr>cs_Txn := (\<lambda>req.
          Inr \<lparr>ts_Header = \<lparr>Revision = 8\<rparr>, ts_Succeeded = True,
               ts_Responses =
                 [ResponseDeleteRange \<lparr>ds_Header = \<lparr>Revision = 8\<rparr>, ds_Deleted = 1, ds_PrevKvs = []\<rparr>,
                  ResponsePut \<lparr>ps_Header = \<lparr>Revision = 8\<rparr>, ps_PrevKv = None\<rparr>]\<rparr>)\<rparr>"

definition deletingServer :: server where
  "deletingServer = exServer (Some (clockKv 12 10)) [deletingMember, exMember 4 [clockKv 4 9]]"

definition deleteTxn :: TxnRequest where
  "deleteTxn = \<lparr>tq_Compare = [], tq_Success = [deleteOp ''a''], tq_Failure = []\<rparr>"

text \<open>A kv of a data key as the proxy writes it: the payload, then the 8 bytes of the
  meta-rev of the write; \<open>modRev\<close> is the revision of the member.\<close>

definition dataKv :: "string \<Rightarrow> string \<Rightarrow> int64 \<Rightarrow> int64 \<Rightarrow> KeyValue" where
  "dataKv k v modRev metaRev =
     \<lparr>Key = bytes_of k, CreateRevision = modRev, ModRevision = modRev, Version = 1,
      Value = bytes_of v @ PutUint64 metaRev\<rparr>"

text \<open>Member 0 holds the key \<open>a\<close>, written at meta-rev 5 (its own revision 3); the next
  tick gives 10.\<close>

definition preflightServer :: server where
  "preflightServer =
     exServer (Some (clockKv 12 10))
       [exMember 7 [dataKv ''a'' ''x'' 3 5, clockKv 7 5], exMember 4 [clockKv 4 9]]"

text \<open>A put of \<open>a\<close> under the condition that the mod-rev of \<open>a\<close> is 4.\<close>

definition staleTxn :: TxnRequest where
  "staleTxn =
     \<lparr>tq_Compare =
        [\<lparr>cm_Result = EQUAL, cm_Key = bytes_of ''a'', cm_TargetUnion = Compare_ModRevision 4\<rparr>],
      tq_Success = [putOp ''a'' ''y''],
      tq_Failure = [RequestRange \<lparr>rq_Key = bytes_of ''a'', rq_RangeEnd = [], rq_Limit = 0,
                                  rq_Revision = 0, rq_CountOnly = False\<rparr>]\<rparr>"

text \<open>A put of \<open>a\<close> without a condition.\<close>

definition putTxn :: TxnRequest where
  "putTxn = staleTxn\<lparr>tq_Compare := []\<rparr>"

text \<open>A member of 8 writes, at revision 9: its meta-clock key was put at the revisions
  3, 6 and 9, under the meta-revs 5, 8 and 12.\<close>

definition clockLog :: etcdMember where
  "clockLog =
     \<lparr>writes = [OtherWrite, ClockPut (PutUint64 5), OtherWrite, OtherWrite,
                ClockPut (PutUint64 8), OtherWrite, OtherWrite, ClockPut (PutUint64 12)],
      compactRev = 0\<rparr>"

text \<open>A pool in which member 0 owns and holds \<open>b\<close> and member 1 owns and holds \<open>a\<close>; a
  range read with the limit 1 at the meta-rev 10.\<close>

definition rangeServer :: server where
  "rangeServer =
     \<lparr>coordinator = exCoordinator (Some (clockKv 12 10)),
      members =
        \<lparr>clients = [exMember 3 [dataKv ''b'' ''y'' 3 9], exMember 2 [dataKv ''a'' ''x'' 2 8]],
         owner = (\<lambda>key. if key = bytes_of ''b'' then 0 else 1),
         schedule = []\<rparr>\<rparr>"

definition rangeRequest :: RangeRequest where
  "rangeRequest =
     \<lparr>rq_Key = bytes_of ''a'', rq_RangeEnd = bytes_of ''z'', rq_Limit = 1, rq_Revision = 10,
      rq_CountOnly = False\<rparr>"

text \<open>The same range read with the limit -1.\<close>

definition negativeLimitRequest :: RangeRequest where
  "negativeLimitRequest = rangeRequest\<lparr>rq_Limit := - 1\<rparr>"

section \<open>The order of a fan-out\<close>

text \<open>Whatever the order asked for, \<open>permuteBy\<close> gives every element once.\<close>

lemma permuteBy_positions:
  "mset (filter (\<lambda>i. i < n) (remdups order)
           @ filter (\<lambda>i. i \<notin> set (filter (\<lambda>i. i < n) (remdups order))) [0..<n])
     = mset [0..<n]"
proof -
  let ?first = "filter (\<lambda>i. i < n) (remdups order)"
  let ?rest = "filter (\<lambda>i. i \<notin> set ?first) [0..<n]"
  have "distinct (?first @ ?rest)"
    by auto
  moreover have "set (?first @ ?rest) = set [0..<n]"
    by auto
  ultimately show ?thesis
    using set_eq_iff_mset_eq_distinct [of "?first @ ?rest" "[0..<n]"] by simp
qed

lemma mset_permuteBy: "mset (permuteBy order xs) = mset xs"
proof -
  let ?first = "filter (\<lambda>i. i < length xs) (remdups order)"
  let ?rest = "filter (\<lambda>i. i \<notin> set ?first) [0..<length xs]"
  have "mset (map (nth xs) (?first @ ?rest)) = image_mset (nth xs) (mset (?first @ ?rest))"
    by (simp only: mset_map)
  also have "\<dots> = image_mset (nth xs) (mset [0..<length xs])"
    by (simp only: permuteBy_positions)
  also have "\<dots> = mset (map (nth xs) [0..<length xs])"
    by (simp only: mset_map)
  also have "\<dots> = mset xs"
    by (simp only: map_nth)
  finally show ?thesis
    by (simp add: permuteBy_def Let_def)
qed

lemma set_permuteBy: "set (permuteBy order xs) = set xs"
  using mset_permuteBy [of order xs] by (rule mset_eq_setD)

lemma length_permuteBy: "length (permuteBy order xs) = length xs"
  using mset_permuteBy [of order xs] by (rule mset_eq_length)

lemma permuteBy_Nil: "permuteBy [] xs = xs"
  by (simp add: permuteBy_def map_nth)

text \<open>And every permutation of a list is given by some order.\<close>

lemma permutation_positions:
  "mset ys = mset xs \<Longrightarrow>
   \<exists>order. distinct order \<and> set order = {..<length xs} \<and> map (nth xs) order = ys"
proof (induction xs arbitrary: ys)
  case Nil
  then show ?case by simp
next
  case (Cons x xs)
  from Cons.prems have "x \<in> set ys"
    by (metis list.set_intros(1) mset_eq_setD)
  then obtain as bs where ys: "ys = as @ x # bs"
    by (auto dest: split_list)
  with Cons.prems have "mset (as @ bs) = mset xs"
    by simp
  from Cons.IH [OF this] obtain order where
    o: "distinct order" "set order = {..<length xs}" "map (nth xs) order = as @ bs"
    by blast
  let ?l = "length as"
  let ?order = "map Suc (take ?l order) @ 0 # map Suc (drop ?l order)"
  have t: "set (take ?l order) \<union> set (drop ?l order) = set order"
    by (metis append_take_drop_id set_append)
  have "distinct (take ?l order @ drop ?l order)"
    using o(1) by simp
  then have "distinct (take ?l order) \<and> distinct (drop ?l order) \<and>
             set (take ?l order) \<inter> set (drop ?l order) = {}"
    by (simp only: distinct_append)
  then have "distinct ?order"
    by (auto simp: distinct_map)
  moreover have "set ?order = {..<length (x # xs)}"
  proof -
    have "set ?order = insert 0 (Suc ` set order)"
      using t by auto
    also have "\<dots> = {..<Suc (length xs)}"
      unfolding o(2) by (auto simp: lessThan_Suc_eq_insert_0)
    finally show ?thesis by simp
  qed
  moreover have "map (nth (x # xs)) ?order = ys"
  proof -
    have "map (nth (x # xs)) ?order =
            take ?l (map (nth xs) order) @ x # drop ?l (map (nth xs) order)"
      by (simp add: take_map drop_map comp_def)
    also have "\<dots> = ys"
      unfolding o(3) ys by simp
    finally show ?thesis .
  qed
  ultimately show ?case by blast
qed

lemma permuteBy_complete:
  assumes "mset ys = mset xs"
  shows "\<exists>order. permuteBy order xs = ys"
proof -
  from permutation_positions [OF assms] obtain order where
    o: "distinct order" "set order = {..<length xs}" "map (nth xs) order = ys"
    by blast
  have first: "filter (\<lambda>i. i < length xs) (remdups order) = order"
    using o(1,2) by (simp add: distinct_remdups_id filter_id_conv)
  have rest: "filter (\<lambda>i. i \<notin> set order) [0..<length xs] = []"
    unfolding o(2) by (simp add: filter_empty_conv)
  have "permuteBy order xs = map (nth xs) order"
    unfolding permuteBy_def Let_def first rest by simp
  with o(3) show ?thesis by blast
qed

text \<open>The members are run once each, and every order of the members is that of some
  schedule.\<close>

lemma fanoutOrder_members: "mset (map snd (fanoutOrder p)) = mset (clients p)"
proof -
  have "mset (map snd (fanoutOrder p)) = image_mset snd (mset (fanoutOrder p))"
    by (simp only: mset_map)
  also have "\<dots> = image_mset snd (mset (enumerate 0 (clients p)))"
    by (simp only: fanoutOrder_def mset_permuteBy)
  also have "\<dots> = mset (map snd (enumerate 0 (clients p)))"
    by (simp only: mset_map)
  also have "\<dots> = mset (clients p)"
    by (simp only: map_snd_enumerate)
  finally show ?thesis .
qed


lemma fanoutOrder_pool: "schedule p = [] \<Longrightarrow> fanoutOrder p = enumerate 0 (clients p)"
  by (simp add: fanoutOrder_def permuteBy_Nil)

lemma set_fanoutOrder_members: "set (map snd (fanoutOrder p)) = set (clients p)"
  using fanoutOrder_members [of p] by (rule mset_eq_setD)

lemma fanoutOrder_complete:
  assumes "mset ics = mset (enumerate 0 (clients p))"
  shows "\<exists>order. fanoutOrder (p\<lparr>schedule := order\<rparr>) = ics"
  using permuteBy_complete [OF assms] by (simp add: fanoutOrder_def)

section \<open>The clock service: reconstitution\<close>


lemma sint_add1: "sint (M::int64) < 2 ^ 63 - 1 \<Longrightarrow> sint (M + 1) = sint M + 1"
  using sint_range_size [of M]
  by (simp add: sint_word_ariths signed_take_bit_int_eq_self word_size)

lemma scanMember_readable:
  "readable c \<Longrightarrow>
   \<exists>m'. scanMember i c m = (Inr m', [RpcGet (Member i) MetaKey 0]) \<and>
     sint m \<le> sint m' \<and> (m' = m \<or> m' \<in> set (clockValue c)) \<and>
     (\<forall>v\<in>set (clockValue c). sint v \<le> sint m')"
  by (auto simp: readable_def scanMember_def clockValue_def Let_def split: sum.splits list.splits)

text \<open>The scan of readable members visits each of them once, in order, and ends with the
  greatest of the start value and the members' values.\<close>

lemma IterateMembers_scan:
  "list_all readable (map snd ics) \<Longrightarrow>
   \<exists>m'. IterateMembers ics scanMember m =
           ((None, m'), map (\<lambda>ic. RpcGet (Member (fst ic)) MetaKey 0) ics) \<and>
     sint m \<le> sint m' \<and> (m' = m \<or> m' \<in> set (concat (map (clockValue \<circ> snd) ics))) \<and>
     (\<forall>v\<in>set (concat (map (clockValue \<circ> snd) ics)). sint v \<le> sint m')"
proof (induction ics arbitrary: m)
  case Nil
  then show ?case by simp
next
  case (Cons ic ics)
  obtain i c where ic: "ic = (i, c)" by (cases ic)
  from Cons.prems ic have rc: "readable c" and rest: "list_all readable (map snd ics)"
    by simp_all
  from scanMember_readable [OF rc, of i m] obtain m1 where
    m1: "scanMember i c m = (Inr m1, [RpcGet (Member i) MetaKey 0])" "sint m \<le> sint m1"
        "m1 = m \<or> m1 \<in> set (clockValue c)" "\<forall>v\<in>set (clockValue c). sint v \<le> sint m1"
    by blast
  from Cons.IH [OF rest, of m1] obtain m2 where
    m2: "IterateMembers ics scanMember m1 =
           ((None, m2), map (\<lambda>ic. RpcGet (Member (fst ic)) MetaKey 0) ics)"
        "sint m1 \<le> sint m2" "m2 = m1 \<or> m2 \<in> set (concat (map (clockValue \<circ> snd) ics))"
        "\<forall>v\<in>set (concat (map (clockValue \<circ> snd) ics)). sint v \<le> sint m2"
    by blast
  have "IterateMembers (ic # ics) scanMember m =
          ((None, m2), map (\<lambda>ic. RpcGet (Member (fst ic)) MetaKey 0) (ic # ics))"
    using m1(1) m2(1) ic by simp
  moreover have "sint m \<le> sint m2"
    using m1(2) m2(2) by simp
  moreover have "m2 = m \<or> m2 \<in> set (concat (map (clockValue \<circ> snd) (ic # ics)))"
    using m1(3) m2(3) ic by auto
  moreover have "\<forall>v\<in>set (concat (map (clockValue \<circ> snd) (ic # ics))). sint v \<le> sint m2"
    using m1(4) m2(2,4) ic by fastforce
  ultimately show ?case by blast
qed

text \<open>The scan of the pool when every member answers: whatever the order in which the
  members answer, every member is read once and the scan ends with the greatest of 0 and
  the members' values.\<close>

lemma scan_pool:
  assumes "membersReadable s"
  shows "\<exists>M. IterateMembers (fanoutOrder (members s)) scanMember 0 =
            ((None, M),
             map (\<lambda>i. RpcGet (Member i) MetaKey 0) (map fst (fanoutOrder (members s)))) \<and>
         0 \<le> sint M \<and> (M = 0 \<or> M \<in> set (memberClockValues s)) \<and>
         (\<forall>v\<in>set (memberClockValues s). sint v \<le> sint M)"
proof -
  let ?ics = "fanoutOrder (members s)"
  have "list_all readable (map snd ?ics)"
    using assms set_fanoutOrder_members [of "members s"]
    by (simp add: membersReadable_def list_all_iff)
  from IterateMembers_scan [OF this, of 0] obtain M where
    M: "IterateMembers ?ics scanMember 0 =
          ((None, M), map (\<lambda>ic. RpcGet (Member (fst ic)) MetaKey 0) ?ics)"
       "sint (0::int64) \<le> sint M"
       "M = 0 \<or> M \<in> set (concat (map (clockValue \<circ> snd) ?ics))"
       "\<forall>v\<in>set (concat (map (clockValue \<circ> snd) ?ics)). sint v \<le> sint M"
    by blast
  have "set (concat (map (clockValue \<circ> snd) ?ics)) = (\<Union>c\<in>set (map snd ?ics). set (clockValue c))"
    by auto
  then have vals: "set (concat (map (clockValue \<circ> snd) ?ics)) = set (memberClockValues s)"
    by (simp only: set_fanoutOrder_members) (simp add: memberClockValues_def)
  have tr: "map (\<lambda>ic. RpcGet (Member (fst ic)) MetaKey 0) ?ics
              = map (\<lambda>i. RpcGet (Member i) MetaKey 0) (map fst ?ics)"
    by simp
  show ?thesis using M unfolding vals tr by auto
qed


lemma reconstituteClock_absent:
  assumes "co_Get (coordinator s) MetaKey 0 = Inr resp" and "rs_Kvs resp = []"
    and "membersReadable s"
  shows "\<exists>M. 0 \<le> sint M \<and> (M = 0 \<or> M \<in> set (memberClockValues s)) \<and>
           (\<forall>v\<in>set (memberClockValues s). sint v \<le> sint M) \<and>
           snd (reconstituteClock s d) =
             [RpcLock, RpcGet Coordinator MetaKey 0]
               @ map (\<lambda>i. RpcGet (Member i) MetaKey 0) (map fst (fanoutOrder (members s)))
               @ [RpcPut Coordinator MetaKey (PutUint64 (M + d - 1)), RpcUnlock] \<and>
           fst (reconstituteClock s d) =
             (case co_Put (coordinator s) MetaKey (PutUint64 (M + d - 1)) of
                Inl err \<Rightarrow> Inl err | Inr u \<Rightarrow> Inr (M + d))"
proof -
  from scan_pool [OF assms(3)] obtain M where
    M: "IterateMembers (fanoutOrder (members s)) scanMember 0 =
            ((None, M),
             map (\<lambda>i. RpcGet (Member i) MetaKey 0) (map fst (fanoutOrder (members s))))"
       "0 \<le> sint M" "M = 0 \<or> M \<in> set (memberClockValues s)"
       "\<forall>v\<in>set (memberClockValues s). sint v \<le> sint M"
    by blast
  have "snd (reconstituteClock s d) =
             [RpcLock, RpcGet Coordinator MetaKey 0]
               @ map (\<lambda>i. RpcGet (Member i) MetaKey 0) (map fst (fanoutOrder (members s)))
               @ [RpcPut Coordinator MetaKey (PutUint64 (M + d - 1)), RpcUnlock]"
    using assms(1,2) M(1) by (simp add: reconstituteClock_def Let_def split: sum.splits)
  moreover have "fst (reconstituteClock s d) =
             (case co_Put (coordinator s) MetaKey (PutUint64 (M + d - 1)) of
                Inl err \<Rightarrow> Inl err | Inr u \<Rightarrow> Inr (M + d))"
    using assms(1,2) M(1) by (simp add: reconstituteClock_def Let_def split: sum.splits)
  ultimately show ?thesis using M(2,3,4) by blast
qed

lemma tick_lost:
  "co_Tick (coordinator s) = Inl err \<Longrightarrow> errors_Is err ErrKeyNotFound \<Longrightarrow>
   tick s = (fst (reconstituteClock s 1), RpcTick # snd (reconstituteClock s 1))"
  by (simp add: tick_def split: prod.splits)

lemma now_lost:
  "co_Get (coordinator s) MetaKey 0 = Inr resp \<Longrightarrow> rs_Kvs resp = [] \<Longrightarrow>
   now s = (fst (reconstituteClock s 0), RpcGet Coordinator MetaKey 0 # snd (reconstituteClock s 0))"
  by (simp add: now_def split: prod.splits)

lemma lostClock_get:
  "co_Get (coordinator lostClockServer) MetaKey 0 =
     Inr \<lparr>rs_Header = \<lparr>Revision = 1\<rparr>, rs_Kvs = [], rs_More = False, rs_Count = 0\<rparr>"
  by (simp add: lostClockServer_def exServer_def exCoordinator_def storeGet_def)


lemma lostClock_tick: "co_Tick (coordinator lostClockServer) = Inl ErrKeyNotFound"
  by (simp add: lostClockServer_def exServer_def exCoordinator_def)

lemma lostClock_readable: "membersReadable lostClockServer"
  by code_simp

lemma lostClock_values: "memberClockValues lostClockServer = [5, 9]"
  by code_simp



text \<open>When a member does not answer the read of its meta-clock key, \<^verbatim>\<open>IterateMembers\<close>
  returns the error and the source drops it: the value written is made of the members
  read before, and the call succeeds. With the members that answer first in \<open>ics\<close> and the
  member \<open>c\<close> failing after them, the scan ends with what the scan of \<open>ics\<close> alone gives.\<close>

lemma IterateMembers_scan_failure:
  assumes "list_all readable (map snd ics)" and "cs_Get c MetaKey 0 = Inl err"
  shows "fst (fst (IterateMembers (ics @ (i, c) # rest) scanMember m)) = Some err \<and>
         snd (fst (IterateMembers (ics @ (i, c) # rest) scanMember m)) =
           snd (fst (IterateMembers ics scanMember m))"
  using assms(1)
proof (induction ics arbitrary: m)
  case Nil
  then show ?case using assms(2) by (simp add: scanMember_def)
next
  case (Cons ic ics)
  obtain j b where ic: "ic = (j, b)" by (cases ic)
  from Cons.prems ic have rb: "readable b" and r: "list_all readable (map snd ics)"
    by simp_all
  from scanMember_readable [OF rb, of j m] obtain m1 where
    m1: "scanMember j b m = (Inr m1, [RpcGet (Member j) MetaKey 0])"
    by blast
  obtain r1 t1 where c1: "IterateMembers (ics @ (i, c) # rest) scanMember m1 = (r1, t1)"
    by (cases "IterateMembers (ics @ (i, c) # rest) scanMember m1")
  obtain r2 t2 where c2: "IterateMembers ics scanMember m1 = (r2, t2)"
    by (cases "IterateMembers ics scanMember m1")
  from Cons.IH [OF r, of m1] show ?case
    using m1 ic c1 c2 by simp
qed

text \<open>In the run where member 1 answers before member 0 fails, the value 9 of member 1 is
  in the value written.\<close>

lemma unreachable_later:
  "fst (reconstituteClock
          (unreachableServer\<lparr>members := (members unreachableServer)\<lparr>schedule := [1, 0]\<rparr>\<rparr>) 1)
     = Inr 10"
  by code_simp




section \<open>The clock service: the least value returned\<close>

lemma fresh_get:
  "co_Get (coordinator freshServer) MetaKey 0 =
     Inr \<lparr>rs_Header = \<lparr>Revision = 1\<rparr>, rs_Kvs = [], rs_More = False, rs_Count = 0\<rparr>"
  by (simp add: freshServer_def exServer_def exCoordinator_def storeGet_def)

lemma fresh_readable: "membersReadable freshServer"
  by code_simp

lemma fresh_values: "memberClockValues freshServer = []"
  by code_simp

text \<open>
  Claim C8 says that every meta-rev that \<^verbatim>\<open>now\<close> or \<^verbatim>\<open>tick\<close> returns is at least 1, also
  on a fresh system. On the fresh system \<^verbatim>\<open>now\<close> finds no clock, runs
  \<^verbatim>\<open>reconstituteClock\<close> with delta 0 and returns 0.
\<close>

theorem now_fresh_counterexample:
  "fst (now freshServer) = Inr 0 \<and> \<not> 1 \<le> sint (0 :: int64)"
  by (simp add: now_def reconstituteClock_def freshServer_def exServer_def exMember_def
      exCoordinator_def storeGet_def scanMember_def fanoutOrder_def permuteBy_def
      enumerate_eq_zip upt_rec Let_def)

text \<open>
  Claim C8, amended. When the coordinator's meta-clock key is absent and the members
  answer, the value comes out of \<^verbatim>\<open>reconstituteClock\<close>: \<^verbatim>\<open>now\<close> (delta 0) returns a value
  that is at least 0, and exactly 0 on a system where no member holds a meta-clock value
  and the put succeeds; \<^verbatim>\<open>tick\<close> (delta 1, on key-not-found) returns a value that is at
  least 1, provided no member holds the greatest \<^verbatim>\<open>int64\<close>, where the addition would wrap.
\<close>

theorem reconstituted_lower_bound:
  assumes "co_Get (coordinator s) MetaKey 0 = Inr resp" and "rs_Kvs resp = []"
    and "membersReadable s"
  shows "(\<forall>v. fst (now s) = Inr v \<longrightarrow> 0 \<le> sint v) \<and>
         (\<forall>err v. co_Tick (coordinator s) = Inl err \<and> errors_Is err ErrKeyNotFound \<and>
                  (\<forall>x\<in>set (memberClockValues s). sint x < 2 ^ 63 - 1) \<and> fst (tick s) = Inr v
                  \<longrightarrow> 1 \<le> sint v) \<and>
         (memberClockValues s = [] \<and> co_Put (coordinator s) MetaKey (PutUint64 (0 - 1)) = Inr ()
            \<longrightarrow> fst (now s) = Inr 0)"
proof (intro conjI allI impI)
  fix v
  assume v: "fst (now s) = Inr v"
  from reconstituteClock_absent [OF assms, of 0] obtain M where
    M: "0 \<le> sint M"
       "fst (reconstituteClock s 0) =
          (case co_Put (coordinator s) MetaKey (PutUint64 (M + 0 - 1)) of
             Inl err \<Rightarrow> Inl err | Inr u \<Rightarrow> Inr (M + 0))"
    by blast
  from v have "fst (reconstituteClock s 0) = Inr v"
    by (simp add: now_lost [OF assms(1,2)])
  with M(2) have "v = M"
    by (simp split: sum.splits)
  with M(1) show "0 \<le> sint v" by simp
next
  fix err v
  assume a: "co_Tick (coordinator s) = Inl err \<and> errors_Is err ErrKeyNotFound \<and>
             (\<forall>x\<in>set (memberClockValues s). sint x < 2 ^ 63 - 1) \<and> fst (tick s) = Inr v"
  from reconstituteClock_absent [OF assms, of 1] obtain M where
    M: "0 \<le> sint M" "M = 0 \<or> M \<in> set (memberClockValues s)"
       "fst (reconstituteClock s 1) =
          (case co_Put (coordinator s) MetaKey (PutUint64 (M + 1 - 1)) of
             Inl err \<Rightarrow> Inl err | Inr u \<Rightarrow> Inr (M + 1))"
    by blast
  from a have "tick s = (fst (reconstituteClock s 1), RpcTick # snd (reconstituteClock s 1))"
    by (blast intro: tick_lost)
  with a have "fst (reconstituteClock s 1) = Inr v"
    by simp
  with M(3) have v: "v = M + 1"
    by (simp split: sum.splits)
  from M(2) a have "sint M < 2 ^ 63 - 1"
    by auto
  then have "sint (M + 1) = sint M + 1"
    by (rule sint_add1)
  with M(1) v show "1 \<le> sint v" by simp
next
  assume a: "memberClockValues s = [] \<and>
             co_Put (coordinator s) MetaKey (PutUint64 (0 - 1)) = Inr ()"
  from reconstituteClock_absent [OF assms, of 0] obtain M where
    M: "M = 0 \<or> M \<in> set (memberClockValues s)"
       "fst (reconstituteClock s 0) =
          (case co_Put (coordinator s) MetaKey (PutUint64 (M + 0 - 1)) of
             Inl err \<Rightarrow> Inl err | Inr u \<Rightarrow> Inr (M + 0))"
    by blast
  from M(1) a have "M = 0" by simp
  with M(2) a have "fst (reconstituteClock s 0) = Inr 0" by simp
  then show "fst (now s) = Inr 0"
    by (simp add: now_lost [OF assms(1,2)])
qed

lemma lostClock_tick_value: "fst (tick lostClockServer) = Inr 10"
  by code_simp

theorem reconstituted_lower_bound_witness:
  "fst (now freshServer) = Inr 0 \<and> fst (tick lostClockServer) = Inr 10 \<and> 1 \<le> sint (10 :: int64)"
proof -
  have put: "co_Put (coordinator freshServer) MetaKey (PutUint64 (0 - 1)) = Inr ()"
    by (simp add: freshServer_def exServer_def exCoordinator_def)
  have "fst (now freshServer) = Inr 0"
    using reconstituted_lower_bound [OF fresh_get _ fresh_readable, THEN conjunct2, THEN conjunct2]
      fresh_values put
    by simp
  moreover have "1 \<le> sint (10 :: int64)"
    using reconstituted_lower_bound [OF lostClock_get _ lostClock_readable, THEN conjunct2,
        THEN conjunct1, rule_format, of ErrKeyNotFound 10]
      lostClock_tick lostClock_tick_value lostClock_values
    by simp
  ultimately show ?thesis
    using lostClock_tick_value by simp
qed

section \<open>Txn: validation\<close>

lemma validateKeys_append:
  "validateKeys a (xs @ ys) =
     (case validateKeys a xs of Inl err \<Rightarrow> Inl err | Inr a' \<Rightarrow> validateKeys a' ys)"
  by (induction a xs rule: validateKeys.induct) simp_all

lemma validateKeys_Some:
  "validateKeys (Some k) ks =
     (if \<forall>x\<in>set ks. x = k then Inr (Some k) else Inl ErrInvalidCrossShardTxn)"
  by (induction ks) auto

lemma validateKeys_None:
  "validateKeys None ks =
     (case ks of
        [] \<Rightarrow> Inr None
      | k # ks' \<Rightarrow> if \<forall>x\<in>set ks'. x = k then Inr (Some k) else Inl ErrInvalidCrossShardTxn)"
  by (cases ks) (simp_all add: validateKeys_Some)

lemma validateTxn_keys: "validateTxn req = validateKeys None (txnKeys req)"
  by (simp add: validateTxn_def ValidateTxComparisons_def ValidateTxOps_def txnKeys_def
      validateKeys_append split: sum.splits)

text \<open>The three validations pass exactly on the transactions with a single anchor, and
  give the first key met.\<close>

lemma validateTxn_iff:
  "validateTxn req =
     (if singleAnchor req then Inr (case txnKeys req of [] \<Rightarrow> None | k # _ \<Rightarrow> Some k)
      else Inl ErrInvalidCrossShardTxn)"
  unfolding validateTxn_keys validateKeys_None singleAnchor_def
  by (cases "txnKeys req") auto

text \<open>
  Claim C6. A transaction whose keys (those of its comparisons and of the operations of
  both branches, so the compared and the mutated keys among them) do not all resolve to
  the same single anchor key fails with invalid-cross-shard-txn, and no call has been
  made when it fails: the clock is not ticked and no request goes to a member.
\<close>

theorem Txn_cross_shard:
  "\<not> singleAnchor req \<Longrightarrow> Txn s req = (Inl ErrInvalidCrossShardTxn, [])"
  by (simp add: Txn_def validateTxn_iff)

theorem Txn_cross_shard_witness:
  "\<not> singleAnchor crossShardTxn \<and> Txn runningServer crossShardTxn = (Inl ErrInvalidCrossShardTxn, [])"
proof -
  have "bytes_of ''a'' \<noteq> bytes_of ''b''"
    by (simp add: bytes_of_def)
  then have c: "\<not> singleAnchor crossShardTxn"
    by (auto simp: singleAnchor_def txnKeys_def crossShardTxn_def putOp_def)
  from Txn_cross_shard [OF c, of runningServer] c show ?thesis by simp
qed

section \<open>Txn: the calls made\<close>

text \<open>The calls of a fan-out are calls of its closure.\<close>

lemma IterateMembers_trace:
  "(\<And>i c st. \<forall>x\<in>set (snd (fn i c st)). P x) \<Longrightarrow> \<forall>x\<in>set (snd (IterateMembers ics fn st)). P x"
proof (induction ics arbitrary: st)
  case Nil
  then show ?case by simp
next
  case (Cons ic ics)
  obtain i c where ic: "ic = (i, c)" by (cases ic)
  show ?case
  proof (cases "fn i c st")
    case (Pair r tr)
    with Cons.prems [of i c st] have tr: "\<forall>x\<in>set tr. P x" by simp
    show ?thesis
    proof (cases r)
      case (Inl err)
      with Pair ic tr show ?thesis by simp
    next
      case (Inr st')
      from Cons.IH [OF Cons.prems, of st'] have "\<forall>x\<in>set (snd (IterateMembers ics fn st')). P x" .
      with Pair ic tr Inr show ?thesis by (auto split: prod.splits)
    qed
  qed
qed

lemma scanMember_trace: "\<forall>x\<in>set (snd (scanMember i c m)). \<not> isTxnCall x"
  by (simp add: scanMember_def split: sum.splits)

lemma reconstituteClock_trace: "\<forall>x\<in>set (snd (reconstituteClock s d)). \<not> isTxnCall x"
proof -
  have "\<forall>x\<in>set (snd (IterateMembers (fanoutOrder (members s)) scanMember 0)). \<not> isTxnCall x"
    by (rule IterateMembers_trace) (rule scanMember_trace)
  then show ?thesis
    by (auto simp: reconstituteClock_def Let_def split: sum.splits list.splits prod.splits)
qed

lemma tick_trace: "\<forall>x\<in>set (snd (tick s)). \<not> isTxnCall x"
  using reconstituteClock_trace [of s 1]
  by (auto simp: tick_def split: sum.splits list.splits prod.splits ResponseOp.splits)

lemma resolveModComparison_trace:
  "\<forall>x\<in>set (snd (resolveModComparison client key r req)). \<not> isTxnCall x"
  by (auto simp: resolveModComparison_def split: option.splits sum.splits list.splits prod.splits)

lemma resolveComparisons_trace:
  "\<forall>x\<in>set (snd (resolveComparisons client key req done todo)). \<not> isTxnCall x"
proof (induction client key req "done" todo rule: resolveComparisons.induct)
  case (1 client key req "done")
  then show ?case by simp
next
  case (2 client key req "done" op rest)
  show ?case
  proof (cases "cm_TargetUnion op")
    case (Compare_ModRevision r)
    show ?thesis
    proof (cases "r = 0")
      case True
      with 2(3) Compare_ModRevision show ?thesis by simp
    next
      case False
      obtain res tr where rm: "resolveModComparison client key r (req\<lparr>tq_Compare := done @ op # rest\<rparr>) = (res, tr)"
        by (cases "resolveModComparison client key r (req\<lparr>tq_Compare := done @ op # rest\<rparr>)")
      with resolveModComparison_trace [of client key r "req\<lparr>tq_Compare := done @ op # rest\<rparr>"]
      have tr: "\<forall>x\<in>set tr. \<not> isTxnCall x" by simp
      show ?thesis
      proof (cases res)
        case (Inl err)
        with Compare_ModRevision False rm tr show ?thesis by simp
      next
        case (Inr p)
        obtain memberRev fr where p: "p = (memberRev, fr)" by (cases p)
        show ?thesis
        proof (cases fr)
          case None
          from 2(4) [OF Compare_ModRevision False rm [symmetric] Inr p [symmetric] None]
          have "\<forall>x\<in>set (snd (resolveComparisons client key req
                    (done @ [op\<lparr>cm_TargetUnion := Compare_ModRevision memberRev\<rparr>]) rest)).
                  \<not> isTxnCall x" .
          with Compare_ModRevision False rm tr Inr p None show ?thesis
            by (auto split: prod.splits)
        next
          case (Some resp)
          with Compare_ModRevision False rm tr Inr p show ?thesis by simp
        qed
      qed
    qed
  qed (use 2 in simp_all)
qed

lemma tick_trace_head: "\<exists>tr. snd (tick s) = RpcTick # tr"
  by (auto simp: tick_def split: sum.splits list.splits prod.splits ResponseOp.splits)

text \<open>A transaction that passes the validation and the preflight: the clock is ticked
  and, with the meta-rev of the tick, the request is sent to the owning member.\<close>

lemma Txn_resolved:
  assumes "validateTxn req = Inr anchor"
    and "GetMemberForKey (members s) (anchorKey anchor) = Some (i, c)"
    and "resolveComparisons (Some (i, c)) (anchorKey anchor) req [] (tq_Compare req) = (Inr (Resolved cmps), tr)"
  shows "Txn s req =
     (case tick s of
        (Inl err, tr') \<Rightarrow> (Inl err, tr @ tr')
      | (Inr metaRev, tr') \<Rightarrow>
          (case cs_Txn c (memberTxn req cmps metaRev) of
             Inl err \<Rightarrow> Inl err
           | Inr resp \<Rightarrow> Inr (resp\<lparr>ts_Responses := map (rewriteResponse metaRev) (ts_Responses resp),
                                   ts_Header := \<lparr>Revision = metaRev\<rparr>\<rparr>),
           tr @ tr' @ [RpcTxn i (memberTxn req cmps metaRev)]))"
  using assms by (simp add: Txn_def Let_def split: prod.splits sum.splits)

section \<open>Txn: the rewritten response\<close>

text \<open>What the loop over the previous kvs of a delete-range response computes: the header
  revision is set only when there is a previous kv.\<close>

lemma resolvePrevKvs_eq:
  "resolvePrevKvs metaRev kvs h =
     (map ResolveModRev kvs, if kvs = [] then h else h\<lparr>Revision := metaRev\<rparr>)"
  by (induction kvs arbitrary: h) auto

text \<open>
  Claim C7 says that the rewritten response has the header revision of every
  delete-range sub-response set to the meta-rev, whatever its previous kvs, as that of
  every put sub-response is. The source sets it inside the loop over the previous kvs.
  Here the member deletes \<open>a\<close> at its revision 8 and returns no previous kv; the tick
  gives the meta-rev 10: the top-level header and the put sub-response carry 10, the
  delete-range sub-response still carries 8.
\<close>

theorem Txn_deleteRange_header_kept:
  "fst (Txn deletingServer deleteTxn) =
     Inr \<lparr>ts_Header = \<lparr>Revision = 10\<rparr>, ts_Succeeded = True,
          ts_Responses =
            [ResponseDeleteRange \<lparr>ds_Header = \<lparr>Revision = 8\<rparr>, ds_Deleted = 1, ds_PrevKvs = []\<rparr>,
             ResponsePut \<lparr>ps_Header = \<lparr>Revision = 10\<rparr>, ps_PrevKv = None\<rparr>]\<rparr>"
  by code_simp

section \<open>Txn: the clock write\<close>

lemma branchSent_memberTxn:
  "branchSent metaRev ops (AppendMetaRevToTxOps (PutUint64 metaRev) ops @ [updateClockOp (PutUint64 metaRev)])"
proof -
  have "(case ops ! j of
          RequestPut p \<Rightarrow> (AppendMetaRevToTxOps (PutUint64 metaRev) ops @ [updateClockOp (PutUint64 metaRev)]) ! j
                = RequestPut (p\<lparr>pq_Value := pq_Value p @ PutUint64 metaRev\<rparr>)
        | op \<Rightarrow> (AppendMetaRevToTxOps (PutUint64 metaRev) ops @ [updateClockOp (PutUint64 metaRev)]) ! j = op)"
    if "j < length ops" for j
    using that by (cases "ops ! j") (simp_all add: AppendMetaRevToTxOps_def nth_append)
  moreover have "length (AppendMetaRevToTxOps (PutUint64 metaRev) ops @ [updateClockOp (PutUint64 metaRev)])
      = Suc (length ops)"
    by (simp add: AppendMetaRevToTxOps_def)
  moreover have "last (AppendMetaRevToTxOps (PutUint64 metaRev) ops @ [updateClockOp (PutUint64 metaRev)])
      = RequestPut \<lparr>pq_Key = MetaKey, pq_Value = PutUint64 metaRev, pq_PrevKv = False,
                    pq_IgnoreValue = False\<rparr>"
    by (simp add: updateClockOp_def)
  ultimately show ?thesis
    unfolding branchSent_def by blast
qed

text \<open>
  Claim C4. For a transaction that passes the validation and the preflight, and for which
  the tick gives a meta-rev, one transaction is sent, to the owning member. Both its
  success and its failure branch end with a put on the member's meta-clock key whose
  value is the 8-byte little-endian encoding of the meta-rev of the tick, and every put
  that the request had in either branch is there with the same 8 bytes appended to its
  value (the other operations are unchanged).
\<close>

theorem Txn_clock_write:
  assumes "validateTxn req = Inr anchor"
    and "GetMemberForKey (members s) (anchorKey anchor) = Some (i, c)"
    and "resolveComparisons (Some (i, c)) (anchorKey anchor) req [] (tq_Compare req) = (Inr (Resolved cmps), tr)"
    and "tick s = (Inr metaRev, tr')"
  shows "\<exists>sent. filter isTxnCall (snd (Txn s req)) = [RpcTxn i sent] \<and>
           length (PutUint64 metaRev) = 8 \<and>
           branchSent metaRev (tq_Success req) (tq_Success sent) \<and>
           branchSent metaRev (tq_Failure req) (tq_Failure sent)"
proof -
  let ?sent = "memberTxn req cmps metaRev"
  have "snd (Txn s req) = tr @ tr' @ [RpcTxn i ?sent]"
    using Txn_resolved [OF assms(1,2,3)] assms(4) by simp
  moreover have "filter isTxnCall tr = []"
    using resolveComparisons_trace [of "Some (i, c)" "anchorKey anchor" req "[]" "tq_Compare req"] assms(3)
    by (simp add: filter_empty_conv)
  moreover have "filter isTxnCall tr' = []"
    using tick_trace [of s] assms(4) by (simp add: filter_empty_conv)
  ultimately have "filter isTxnCall (snd (Txn s req)) = [RpcTxn i ?sent]"
    by simp
  moreover have "branchSent metaRev (tq_Success req) (tq_Success ?sent)"
    by (simp add: memberTxn_def Let_def branchSent_memberTxn)
  moreover have "branchSent metaRev (tq_Failure req) (tq_Failure ?sent)"
    by (simp add: memberTxn_def Let_def branchSent_memberTxn)
  ultimately show ?thesis
    by (auto simp: PutUint64_def)
qed

lemma running_owner:
  "GetMemberForKey (members runningServer) (bytes_of ''a'') = Some (0, exMember 7 [clockKv 7 5])"
  by (simp add: GetMemberForKey_def runningServer_def exServer_def)

lemma running_tick: "tick runningServer = (Inr 10, [RpcTick])"
  by code_simp

theorem Txn_clock_write_witness:
  "filter isTxnCall (snd (Txn runningServer putTxn)) =
     [RpcTxn 0 (memberTxn putTxn [] 10)] \<and>
   tq_Success (memberTxn putTxn [] 10) =
     [RequestPut \<lparr>pq_Key = bytes_of ''a'', pq_Value = bytes_of ''y'' @ PutUint64 10,
                  pq_PrevKv = False, pq_IgnoreValue = False\<rparr>,
      RequestPut \<lparr>pq_Key = MetaKey, pq_Value = PutUint64 10, pq_PrevKv = False,
                  pq_IgnoreValue = False\<rparr>] \<and>
   branchSent 10 (tq_Success putTxn) (tq_Success (memberTxn putTxn [] 10)) \<and>
   branchSent 10 (tq_Failure putTxn) (tq_Failure (memberTxn putTxn [] 10))"
proof -
  have v: "validateTxn putTxn = Inr (Some (bytes_of ''a''))"
    by (simp add: validateTxn_def ValidateTxComparisons_def ValidateTxOps_def putTxn_def
        staleTxn_def putOp_def)
  have o: "GetMemberForKey (members runningServer) (anchorKey (Some (bytes_of ''a''))) =
             Some (0, exMember 7 [clockKv 7 5])"
    using running_owner by (simp add: anchorKey_def)
  have r: "resolveComparisons (Some (0, exMember 7 [clockKv 7 5])) (anchorKey (Some (bytes_of ''a'')))
             putTxn [] (tq_Compare putTxn) = (Inr (Resolved []), [])"
    by (simp add: putTxn_def)
  from Txn_clock_write [OF v o r running_tick] obtain sent where
    sent: "filter isTxnCall (snd (Txn runningServer putTxn)) = [RpcTxn 0 sent]"
      "branchSent 10 (tq_Success putTxn) (tq_Success sent)"
      "branchSent 10 (tq_Failure putTxn) (tq_Failure sent)"
    by blast
  have "snd (Txn runningServer putTxn) = [] @ [RpcTick] @ [RpcTxn 0 (memberTxn putTxn [] 10)]"
    using Txn_resolved [OF v o r] running_tick by simp
  with sent(1) have "sent = memberTxn putTxn [] 10"
    by simp
  moreover have "tq_Success (memberTxn putTxn [] 10) =
     [RequestPut \<lparr>pq_Key = bytes_of ''a'', pq_Value = bytes_of ''y'' @ PutUint64 10,
                  pq_PrevKv = False, pq_IgnoreValue = False\<rparr>,
      RequestPut \<lparr>pq_Key = MetaKey, pq_Value = PutUint64 10, pq_PrevKv = False,
                  pq_IgnoreValue = False\<rparr>]"
    by (simp add: memberTxn_def Let_def AppendMetaRevToTxOps_def updateClockOp_def putTxn_def
        staleTxn_def putOp_def)
  ultimately show ?thesis
    using sent by simp
qed

section \<open>Txn: comparisons on a key that does not exist\<close>

lemma resolveComparisons_absent:
  assumes "cs_Get c key 0 = Inr resp" and "rs_Kvs resp = []"
  shows "resolveComparisons (Some (i, c)) key req done todo =
           (Inr (Resolved (done @ map zeroTarget todo)),
            map (\<lambda>cmp. RpcGet (Member i) key 0) (filter metaRevComparison todo))"
proof (induction todo arbitrary: "done")
  case Nil
  then show ?case by simp
next
  case (Cons op rest)
  have rm: "resolveModComparison (Some (i, c)) key r q = (Inr (0, None), [RpcGet (Member i) key 0])" for r q
    using assms by (simp add: resolveModComparison_def)
  show ?case
    by (cases "cm_TargetUnion op") (simp_all add: Cons rm zeroTarget_def metaRevComparison_def)
qed

text \<open>
  Claim C10. When the anchor key does not exist on the owning member (the member answers
  the read of it with no kv), no comparison makes the preflight fail: the loop reads the
  key once for every comparison of a mod-rev with a target that is not 0, sets the target
  of each to 0 and leaves the other comparisons as they are. The transaction then
  proceeds to the tick and, when the tick gives a meta-rev, is sent to the member with
  the rewritten comparisons.
\<close>

theorem Txn_absent_key:
  assumes "validateTxn req = Inr anchor"
    and "GetMemberForKey (members s) (anchorKey anchor) = Some (i, c)"
    and "cs_Get c (anchorKey anchor) 0 = Inr resp" and "rs_Kvs resp = []"
  shows "\<exists>gets. gets = map (\<lambda>cmp. RpcGet (Member i) (anchorKey anchor) 0)
                          (filter metaRevComparison (tq_Compare req)) \<and>
           resolveComparisons (Some (i, c)) (anchorKey anchor) req [] (tq_Compare req) =
             (Inr (Resolved (map zeroTarget (tq_Compare req))), gets) \<and>
           RpcTick \<in> set (snd (Txn s req)) \<and>
           (case tick s of
              (Inl err, tr') \<Rightarrow> Txn s req = (Inl err, gets @ tr')
            | (Inr metaRev, tr') \<Rightarrow>
                (\<exists>sent. tq_Compare sent = map zeroTarget (tq_Compare req) \<and>
                   snd (Txn s req) = gets @ tr' @ [RpcTxn i sent] \<and>
                   fst (Txn s req) =
                     (case cs_Txn c sent of
                        Inl err \<Rightarrow> Inl err
                      | Inr r \<Rightarrow>
                          Inr (r\<lparr>ts_Responses := map (rewriteResponse metaRev) (ts_Responses r),
                                 ts_Header := \<lparr>Revision = metaRev\<rparr>\<rparr>))))"
proof -
  let ?gets = "map (\<lambda>cmp. RpcGet (Member i) (anchorKey anchor) 0)
                 (filter metaRevComparison (tq_Compare req))"
  let ?cmps = "map zeroTarget (tq_Compare req)"
  have r: "resolveComparisons (Some (i, c)) (anchorKey anchor) req [] (tq_Compare req) =
             (Inr (Resolved ?cmps), ?gets)"
    using resolveComparisons_absent [OF assms(3,4), of i req "[]" "tq_Compare req"] by simp
  note t = Txn_resolved [OF assms(1,2) r]
  obtain res tr' where tk: "tick s = (res, tr')"
    by (cases "tick s")
  from tick_trace_head [of s] tk have hd: "RpcTick \<in> set tr'"
    by auto
  show ?thesis
  proof (cases res)
    case (Inl err)
    with t tk hd r show ?thesis by simp
  next
    case (Inr metaRev)
    have "tq_Compare (memberTxn req ?cmps metaRev) = ?cmps"
      by (simp add: memberTxn_def Let_def)
    with t tk hd r Inr show ?thesis by auto
  qed
qed

theorem Txn_absent_key_witness:
  "resolveComparisons (Some (0, exMember 7 [clockKv 7 5])) (bytes_of ''a'') staleTxn []
       (tq_Compare staleTxn) =
     (Inr (Resolved
        [\<lparr>cm_Result = EQUAL, cm_Key = bytes_of ''a'', cm_TargetUnion = Compare_ModRevision 0\<rparr>]),
      [RpcGet (Member 0) (bytes_of ''a'') 0]) \<and>
   RpcTick \<in> set (snd (Txn runningServer staleTxn))"
proof -
  have v: "validateTxn staleTxn = Inr (Some (bytes_of ''a''))"
    by (simp add: validateTxn_def ValidateTxComparisons_def ValidateTxOps_def staleTxn_def
        putOp_def)
  have o: "GetMemberForKey (members runningServer) (anchorKey (Some (bytes_of ''a''))) =
             Some (0, exMember 7 [clockKv 7 5])"
    using running_owner by (simp add: anchorKey_def)
  have ne: "MetaKey \<noteq> bytes_of ''a''"
    by (simp add: MetaKey_def bytes_of_def)
  have g: "cs_Get (exMember 7 [clockKv 7 5]) (anchorKey (Some (bytes_of ''a''))) 0 =
             Inr \<lparr>rs_Header = \<lparr>Revision = 7\<rparr>, rs_Kvs = [], rs_More = False, rs_Count = 0\<rparr>"
    using ne by (simp add: exMember_def storeGet_def clockKv_def anchorKey_def)
  from Txn_absent_key [OF v o g] show ?thesis
    by (simp add: anchorKey_def staleTxn_def zeroTarget_def metaRevComparison_def)
qed

section \<open>Txn: the failed preflight\<close>

lemma resolveComparisons_false:
  assumes "cs_Get c key 0 = Inr resp" and "rs_Kvs resp = kv # kvs"
  shows "list_ex (provablyFalse (ResolveMetaRev kv)) (done @ todo) \<Longrightarrow>
         \<not> list_ex metaRevComparison done \<Longrightarrow>
         \<exists>cmp t. find metaRevComparison todo = Some cmp \<and> cm_TargetUnion cmp = Compare_ModRevision t \<and>
           resolveComparisons (Some (i, c)) key req done todo =
             (Inr (ShortCircuit \<lparr>ts_Header = \<lparr>Revision = t\<rparr>, ts_Succeeded = False, ts_Responses = []\<rparr>),
              [RpcGet (Member i) key 0])"
proof (induction todo arbitrary: "done")
  case Nil
  then have "list_ex (provablyFalse (ResolveMetaRev kv)) done" by simp
  then obtain x where "x \<in> set done" "provablyFalse (ResolveMetaRev kv) x"
    by (auto simp: list_ex_iff)
  then have "metaRevComparison x"
    by (auto simp: metaRevComparison_def provablyFalse_def split: TargetUnion.splits)
  with \<open>x \<in> set done\<close> Nil.prems(2) show ?case
    by (auto simp: list_ex_iff)
next
  case (Cons op rest)
  show ?case
  proof (cases "metaRevComparison op")
    case True
    then obtain t where t: "cm_TargetUnion op = Compare_ModRevision t" "t \<noteq> 0"
      by (auto simp: metaRevComparison_def split: TargetUnion.splits)
    have "PreflightTxn t (req\<lparr>tq_Compare := done @ op # rest\<rparr>) resp =
            (ResolveMetaRev kv, Some \<lparr>ts_Header = \<lparr>Revision = t\<rparr>, ts_Succeeded = False, ts_Responses = []\<rparr>)"
      using assms(2) Cons.prems(1) by (simp add: PreflightTxn_def Let_def)
    then have "resolveModComparison (Some (i, c)) key t (req\<lparr>tq_Compare := done @ op # rest\<rparr>) =
            (Inr (0, Some \<lparr>ts_Header = \<lparr>Revision = t\<rparr>, ts_Succeeded = False, ts_Responses = []\<rparr>),
             [RpcGet (Member i) key 0])"
      using assms by (simp add: resolveModComparison_def)
    with t True show ?thesis by simp
  next
    case False
    from Cons.prems False have a: "list_ex (provablyFalse (ResolveMetaRev kv)) ((done @ [op]) @ rest)"
      "\<not> list_ex metaRevComparison (done @ [op])"
      by simp_all
    from Cons.IH [OF a] obtain cmp t where
      ct: "find metaRevComparison rest = Some cmp" "cm_TargetUnion cmp = Compare_ModRevision t"
          "resolveComparisons (Some (i, c)) key req (done @ [op]) rest =
             (Inr (ShortCircuit \<lparr>ts_Header = \<lparr>Revision = t\<rparr>, ts_Succeeded = False, ts_Responses = []\<rparr>),
              [RpcGet (Member i) key 0])"
      by blast
    have "resolveComparisons (Some (i, c)) key req done (op # rest) =
            resolveComparisons (Some (i, c)) key req (done @ [op]) rest"
      using False by (cases "cm_TargetUnion op") (simp_all add: metaRevComparison_def)
    with ct False show ?thesis by simp
  qed
qed

lemma preflight_owner:
  "GetMemberForKey (members preflightServer) (anchorKey (Some (bytes_of ''a''))) =
     Some (0, exMember 7 [dataKv ''a'' ''x'' 3 5, clockKv 7 5])"
  by (simp add: GetMemberForKey_def preflightServer_def exServer_def anchorKey_def)

lemma stale_valid: "validateTxn staleTxn = Inr (Some (bytes_of ''a''))"
  by (simp add: validateTxn_def ValidateTxComparisons_def ValidateTxOps_def staleTxn_def
      putOp_def)

text \<open>
  Claim C3 says that a transaction with a comparison of a mod-rev that the member's
  current kv makes false is answered with a synthesized response, \<^verbatim>\<open>Succeeded = false\<close>,
  whose header revision is the tick value, and that nothing is written to the member.
  The preflight runs before the tick, and a failed preflight returns at once: the clock
  is not ticked. Here \<open>a\<close> was written at meta-rev 5 and the transaction asks for mod-rev
  4; the response carries the revision 4, the target of the comparison, which is what
  \<^verbatim>\<open>PreflightTxn\<close> is given as its meta-rev; the only call made is the read of \<open>a\<close>, and
  a tick would have given 10.
\<close>

theorem Txn_preflight_counterexample:
  "Txn preflightServer staleTxn =
     (Inr \<lparr>ts_Header = \<lparr>Revision = 4\<rparr>, ts_Succeeded = False, ts_Responses = []\<rparr>,
      [RpcGet (Member 0) (bytes_of ''a'') 0]) \<and>
   fst (tick preflightServer) = Inr 10"
  by code_simp

text \<open>
  Claim C3, amended. For a transaction that passes the validation, whose anchor key
  exists on the owning member and which holds a comparison of a mod-rev, with a target
  that is not 0, that the meta-rev of the member's current kv makes false: the server
  returns the synthesized response with \<^verbatim>\<open>Succeeded = false\<close>, whose header revision is
  the target of the first comparison of a mod-rev with a target that is not 0 (the
  meta-rev that \<^verbatim>\<open>PreflightTxn\<close> is called with). The one call made is the read of the
  anchor key on the member: the clock is not ticked and nothing is written to the member.
\<close>

theorem Txn_preflight_short_circuit:
  assumes "validateTxn req = Inr anchor"
    and "GetMemberForKey (members s) (anchorKey anchor) = Some (i, c)"
    and "cs_Get c (anchorKey anchor) 0 = Inr resp" and "rs_Kvs resp = kv # kvs"
    and "list_ex (provablyFalse (ResolveMetaRev kv)) (tq_Compare req)"
  shows "\<exists>cmp t. find metaRevComparison (tq_Compare req) = Some cmp \<and>
           cm_TargetUnion cmp = Compare_ModRevision t \<and>
           Txn s req =
             (Inr \<lparr>ts_Header = \<lparr>Revision = t\<rparr>, ts_Succeeded = False, ts_Responses = []\<rparr>,
              [RpcGet (Member i) (anchorKey anchor) 0])"
proof -
  from resolveComparisons_false [OF assms(3,4), of "[]" "tq_Compare req" i req] assms(5)
  obtain cmp t where
    ct: "find metaRevComparison (tq_Compare req) = Some cmp"
        "cm_TargetUnion cmp = Compare_ModRevision t"
        "resolveComparisons (Some (i, c)) (anchorKey anchor) req [] (tq_Compare req) =
           (Inr (ShortCircuit \<lparr>ts_Header = \<lparr>Revision = t\<rparr>, ts_Succeeded = False,
                                ts_Responses = []\<rparr>),
            [RpcGet (Member i) (anchorKey anchor) 0])"
    by auto
  from ct(3) assms(1,2) have "Txn s req =
             (Inr \<lparr>ts_Header = \<lparr>Revision = t\<rparr>, ts_Succeeded = False, ts_Responses = []\<rparr>,
              [RpcGet (Member i) (anchorKey anchor) 0])"
    by (simp add: Txn_def Let_def)
  with ct(1,2) show ?thesis by blast
qed

theorem Txn_preflight_short_circuit_witness:
  "list_ex (provablyFalse (ResolveMetaRev (dataKv ''a'' ''x'' 3 5))) (tq_Compare staleTxn) \<and>
   Txn preflightServer staleTxn =
     (Inr \<lparr>ts_Header = \<lparr>Revision = 4\<rparr>, ts_Succeeded = False, ts_Responses = []\<rparr>,
      [RpcGet (Member 0) (bytes_of ''a'') 0])"
proof -
  let ?kv = "dataKv ''a'' ''x'' 3 5"
  have ne: "MetaKey \<noteq> bytes_of ''a''"
    by (simp add: MetaKey_def bytes_of_def)
  have g: "cs_Get (exMember 7 [?kv, clockKv 7 5]) (anchorKey (Some (bytes_of ''a''))) 0 =
             Inr \<lparr>rs_Header = \<lparr>Revision = 7\<rparr>, rs_Kvs = [?kv], rs_More = False, rs_Count = 1\<rparr>"
    using ne by (simp add: exMember_def storeGet_def clockKv_def dataKv_def anchorKey_def)
  have m: "ResolveMetaRev ?kv = 5"
    by code_simp
  have f: "list_ex (provablyFalse (ResolveMetaRev ?kv)) (tq_Compare staleTxn)"
    unfolding m by (simp add: provablyFalse_def staleTxn_def)
  from Txn_preflight_short_circuit [OF stale_valid preflight_owner g _ f, of "[]"]
  obtain cmp t where
    ct: "find metaRevComparison (tq_Compare staleTxn) = Some cmp"
        "cm_TargetUnion cmp = Compare_ModRevision t"
        "Txn preflightServer staleTxn =
           (Inr \<lparr>ts_Header = \<lparr>Revision = t\<rparr>, ts_Succeeded = False, ts_Responses = []\<rparr>,
            [RpcGet (Member 0) (anchorKey (Some (bytes_of ''a''))) 0])"
    by auto
  from ct(1,2) have "t = 4"
    by (auto simp: staleTxn_def metaRevComparison_def)
  with ct(3) f show ?thesis
    by (simp add: anchorKey_def)
qed

section \<open>The revision resolver: termination\<close>

lemma sint_sub1: "1 < sint (m::int64) \<Longrightarrow> sint (m - 1) = sint m - 1"
  using sint_range_size [of m]
  by (simp add: sint_word_ariths signed_take_bit_int_eq_self word_size)

text \<open>From a positive probe on: the reads are as of strictly decreasing, positive
  revisions, and the loop returns.\<close>

lemma getMemberRevLoop_probes:
  assumes "mvccReads get"
  shows "0 < sint z \<Longrightarrow>
         \<exists>res rs. getMemberRevLoop p get metaRev z tr = Some (res, tr @ map (RpcGet p MetaKey) (z # rs)) \<and>
                  sorted_wrt (\<lambda>a b. sint b < sint a) (z # rs) \<and> (\<forall>r\<in>set rs. 0 < sint r)"
proof (induction "nat (sint z)" arbitrary: z tr rule: less_induct)
  case less
  have trivial: "sorted_wrt (\<lambda>a b. sint b < sint a) [z] \<and> (\<forall>r\<in>set []. 0 < sint r)"
    by simp
  show ?case
  proof (cases "get MetaKey z")
    case (Inl err)
    with less.prems have "getMemberRevLoop p get metaRev z tr = Some (Inl err, tr @ map (RpcGet p MetaKey) [z])"
      by (subst getMemberRevLoop.simps) simp
    with trivial show ?thesis by blast
  next
    case (Inr resp)
    show ?thesis
    proof (cases "rs_Kvs resp")
      case Nil
      with Inr less.prems have "getMemberRevLoop p get metaRev z tr =
          Some (Inr (Revision (rs_Header resp)), tr @ map (RpcGet p MetaKey) [z])"
        by (subst getMemberRevLoop.simps) simp
      with trivial show ?thesis by blast
    next
      case (Cons kv kvs)
      from assms Inr Cons less.prems
      have m: "1 < sint (ModRevision kv)" "sint (ModRevision kv) \<le> sint z"
        unfolding mvccReads_def by blast+
      then have d: "sint (ModRevision kv - 1) = sint (ModRevision kv) - 1"
        by (simp add: sint_sub1)
      with m have lt: "nat (sint (ModRevision kv - 1)) < nat (sint z)" and pos: "0 < sint (ModRevision kv - 1)"
        by simp_all
      show ?thesis
      proof (cases "8 \<le> length (Value kv) \<and> sint metaRev < sint (Uint64 (Value kv))")
        case True
        from less.hyps [OF lt pos, of "tr @ [RpcGet p MetaKey z]"] obtain res rs where
          r: "getMemberRevLoop p get metaRev (ModRevision kv - 1) (tr @ [RpcGet p MetaKey z]) =
                Some (res, (tr @ [RpcGet p MetaKey z]) @ map (RpcGet p MetaKey) ((ModRevision kv - 1) # rs))"
             "sorted_wrt (\<lambda>a b. sint b < sint a) ((ModRevision kv - 1) # rs)"
             "\<forall>r\<in>set rs. 0 < sint r"
          by blast
        from True Inr Cons less.prems r(1)
        have "getMemberRevLoop p get metaRev z tr =
                Some (res, tr @ map (RpcGet p MetaKey) (z # (ModRevision kv - 1) # rs))"
          by (subst getMemberRevLoop.simps) (simp add: Let_def)
        moreover have "sorted_wrt (\<lambda>a b. sint b < sint a) (z # (ModRevision kv - 1) # rs)"
          using r(2) m d by auto
        moreover have "\<forall>r\<in>set ((ModRevision kv - 1) # rs). 0 < sint r"
          using r(3) pos by simp
        ultimately show ?thesis by blast
      next
        case False
        with Inr Cons less.prems have "\<exists>res. getMemberRevLoop p get metaRev z tr =
            Some (res, tr @ map (RpcGet p MetaKey) [z])"
          by (subst getMemberRevLoop.simps) (auto simp: Let_def)
        with trivial show ?thesis by blast
      qed
    qed
  qed
qed

text \<open>For every member that answers as an etcd store does: the calls are a read of the
  latest state and then reads as of strictly decreasing, positive revisions, and
  \<^verbatim>\<open>getMemberRev\<close> returns.\<close>

lemma getMemberRev_returns:
  assumes "mvccReads get"
  shows "\<exists>res rs. getMemberRev p get metaRev = Some (res, map (RpcGet p MetaKey) (0 # rs)) \<and>
           sorted_wrt (\<lambda>a b. sint b < sint a) rs \<and> (\<forall>r\<in>set rs. 0 < sint r)"
proof -
  have trivial: "sorted_wrt (\<lambda>a b. sint b < sint a) ([]::int64 list) \<and> (\<forall>r\<in>set ([]::int64 list). 0 < sint r)"
    by simp
  show ?thesis
  proof (cases "get MetaKey 0")
    case (Inl err)
    then have "getMemberRev p get metaRev = Some (Inl err, map (RpcGet p MetaKey) [0])"
      unfolding getMemberRev_def by (subst getMemberRevLoop.simps) simp
    with trivial show ?thesis by blast
  next
    case (Inr resp)
    show ?thesis
    proof (cases "rs_Kvs resp")
      case Nil
      with Inr have "getMemberRev p get metaRev =
          Some (Inr (Revision (rs_Header resp)), map (RpcGet p MetaKey) [0])"
        unfolding getMemberRev_def by (subst getMemberRevLoop.simps) simp
      with trivial show ?thesis by blast
    next
      case (Cons kv kvs)
      from assms Inr Cons have m: "1 < sint (ModRevision kv)"
        unfolding mvccReads_def by blast
      then have pos: "0 < sint (ModRevision kv - 1)"
        by (simp add: sint_sub1)
      show ?thesis
      proof (cases "8 \<le> length (Value kv) \<and> sint metaRev < sint (Uint64 (Value kv))")
        case True
        from getMemberRevLoop_probes [OF assms pos, of p metaRev "[RpcGet p MetaKey 0]"]
        obtain res rs where
          r: "getMemberRevLoop p get metaRev (ModRevision kv - 1) [RpcGet p MetaKey 0] =
                Some (res, [RpcGet p MetaKey 0] @ map (RpcGet p MetaKey) ((ModRevision kv - 1) # rs))"
             "sorted_wrt (\<lambda>a b. sint b < sint a) ((ModRevision kv - 1) # rs)"
             "\<forall>r\<in>set rs. 0 < sint r"
          by blast
        from True Inr Cons r(1)
        have "getMemberRev p get metaRev =
                Some (res, map (RpcGet p MetaKey) (0 # (ModRevision kv - 1) # rs))"
          unfolding getMemberRev_def by (subst getMemberRevLoop.simps) (simp add: Let_def)
        moreover have "\<forall>r\<in>set ((ModRevision kv - 1) # rs). 0 < sint r"
          using r(3) pos by simp
        ultimately show ?thesis using r(2) by blast
      next
        case False
        with Inr Cons have "\<exists>res. getMemberRev p get metaRev = Some (res, map (RpcGet p MetaKey) [0])"
          unfolding getMemberRev_def by (subst getMemberRevLoop.simps) (auto simp: Let_def)
        with trivial show ?thesis by blast
      qed
    qed
  qed
qed

text \<open>An etcd store of fewer than \<open>2 ^ 63\<close> revisions answers so.\<close>

lemma clockAfter_modRev:
  "clockAfter ws n kv = Some k \<Longrightarrow>
   Some k = kv \<or> (\<exists>j. ModRevision k = of_nat j \<and> n < j \<and> j \<le> n + length ws)"
proof (induction ws n kv rule: clockAfter.induct)
  case (1 n kv)
  then show ?case by simp
next
  case (2 v ws n kv)
  then show ?case by fastforce
next
  case (3 ws n kv)
  then show ?case by fastforce
next
  case (4 ws n kv)
  then show ?case by fastforce
qed

lemma sint_of_nat: "j < 2 ^ 63 \<Longrightarrow> sint (of_nat j :: int64) = int j"
  by (simp add: signed_of_nat signed_take_bit_int_eq_self)

lemma etcd_mvccReads:
  assumes "Suc (length (writes m)) < 2 ^ 63"
  shows "mvccReads (etcdGet m)"
  unfolding mvccReads_def
proof (intro allI impI)
  fix r resp kv kvs
  assume a: "etcdGet m MetaKey r = Inr resp \<and> rs_Kvs resp = kv # kvs"
  define cur where "cur = Suc (length (writes m))"
  define at where "at = (if sint r \<le> 0 then cur else nat (sint r))"
  from a have le: "at \<le> cur"
    and c: "clockAfter (take (at - 1) (writes m)) 1 None = Some kv"
    by (auto simp: etcdGet_def Let_def cur_def at_def split: if_splits option.splits)
  from clockAfter_modRev [OF c] obtain j where
    j: "ModRevision kv = of_nat j" "1 < j" "j \<le> 1 + length (take (at - 1) (writes m))"
    by auto
  have "0 < at"
    by (simp add: at_def cur_def)
  with j(3) le have ja: "j \<le> at"
    by (simp add: cur_def)
  with le assms have "j < 2 ^ 63"
    by (simp add: cur_def)
  then have s: "sint (ModRevision kv) = int j"
    using j(1) by (simp add: sint_of_nat)
  have "sint (ModRevision kv) \<le> sint r" if "0 < sint r"
    using that ja s by (simp add: at_def)
  with s j(2) show "1 < sint (ModRevision kv) \<and> (0 < sint r \<longrightarrow> sint (ModRevision kv) \<le> sint r)"
    by simp
qed

text \<open>
  Claim C2. For every target meta-rev and every state of a member (an etcd store, whose
  revision is an \<^verbatim>\<open>int64\<close>), \<^verbatim>\<open>getMemberRev\<close> returns: the probe loop ends. Its calls
  are a read of the latest state and then reads as of the probes \<open>rs\<close>. Each probe is
  the mod-rev of the kv just read less 1, and the read as of a probe gives a mod-rev
  that is not greater than the probe: the probes decrease strictly. They stay positive,
  because no kv of an etcd store has a mod-rev below 2 (a probe of 0 would be taken for
  a read of the latest state).
\<close>

theorem getMemberRev_terminates:
  assumes "Suc (length (writes m)) < 2 ^ 63"
  shows "\<exists>res rs. getMemberRev p (etcdGet m) metaRev =
                    Some (res, map (RpcGet p MetaKey) (0 # rs)) \<and>
           sorted_wrt (\<lambda>a b. sint b < sint a) rs \<and> (\<forall>r\<in>set rs. 0 < sint r)"
  using getMemberRev_returns [OF etcd_mvccReads [OF assms]] .

lemma clockLog_resolved:
  "getMemberRev (Member 0) (etcdGet clockLog) 6 =
     Some (Inr 3, [RpcGet (Member 0) MetaKey 0, RpcGet (Member 0) MetaKey 8,
                   RpcGet (Member 0) MetaKey 5])"
  by code_simp

theorem getMemberRev_terminates_witness:
  "Suc (length (writes clockLog)) < 2 ^ 63 \<and>
   getMemberRev (Member 0) (etcdGet clockLog) 6 =
     Some (Inr 3, [RpcGet (Member 0) MetaKey 0, RpcGet (Member 0) MetaKey 8,
                   RpcGet (Member 0) MetaKey 5])"
proof -
  have small: "Suc (length (writes clockLog)) < 2 ^ 63"
    by (simp add: clockLog_def)
  from getMemberRev_terminates [OF small, of "Member 0" 6] obtain res rs where
    "getMemberRev (Member 0) (etcdGet clockLog) 6 =
       Some (res, map (RpcGet (Member 0) MetaKey) (0 # rs))"
    by blast
  with clockLog_resolved small show ?thesis
    by simp
qed

section \<open>Range: the limit\<close>

lemma rangeWithClient_kvs:
  "rangeWithClient req st metaRev (Some (i, c)) = Some (Inr st', tr) \<Longrightarrow>
   rs_Kvs st' = rs_Kvs st @ (if rq_CountOnly req then [] else memberKvs req metaRev (i, c)) \<and>
   rs_Header st' = rs_Header st \<and> rs_More st' = rs_More st"
  by (auto simp: rangeWithClient_def memberKvs_def Let_def
      split: option.splits sum.splits prod.splits if_splits)

lemma fanout_kvs:
  "IterateMembersOpt ics (\<lambda>i c resp. rangeWithClient req resp metaRev (Some (i, c))) st
     = Some ((None, acc), tr) \<Longrightarrow>
   rs_Kvs acc = rs_Kvs st @ (if rq_CountOnly req then [] else concat (map (memberKvs req metaRev) ics)) \<and>
   rs_Header acc = rs_Header st \<and> rs_More acc = rs_More st"
proof (induction ics arbitrary: st tr)
  case Nil
  then show ?case by simp
next
  case (Cons ic ics)
  obtain i c where ic: "ic = (i, c)" by (cases ic)
  from Cons.prems ic obtain st' tr1 tr2 where
    s1: "rangeWithClient req st metaRev (Some (i, c)) = Some (Inr st', tr1)" and
    s2: "IterateMembersOpt ics (\<lambda>i c resp. rangeWithClient req resp metaRev (Some (i, c))) st'
           = Some ((None, acc), tr2)"
    by (auto split: option.splits sum.splits prod.splits)
  from rangeWithClient_kvs [OF s1] Cons.IH [OF s2] ic show ?case
    by simp
qed


text \<open>The first \<open>n\<close> of a list sorted by key: sorted, taken from the list, and no key of
  the rest is smaller.\<close>

lemma take_sort_key:
  fixes f :: "'a \<Rightarrow> 'b::linorder"
  assumes "n \<le> length xs"
  shows "sorted (map f (take n (sort_key f xs)))"
    and "length (take n (sort_key f xs)) = n"
    and "mset (take n (sort_key f xs)) \<subseteq># mset xs"
    and "\<forall>a\<in>set (take n (sort_key f xs)). \<forall>b\<in>#mset xs - mset (take n (sort_key f xs)). f a \<le> f b"
proof -
  let ?ys = "sort_key f xs"
  have s: "sorted (map f ?ys)"
    by (rule sorted_sort_key)
  have m: "mset (take n ?ys) + mset (drop n ?ys) = mset xs"
    by (simp flip: mset_append)
  show "sorted (map f (take n ?ys))"
    using s by (simp add: sorted_wrt_take flip: take_map)
  show "length (take n ?ys) = n"
    using assms by simp
  show "mset (take n ?ys) \<subseteq># mset xs"
    unfolding m [symmetric] by simp
  have d: "mset xs - mset (take n ?ys) = mset (drop n ?ys)"
    unfolding m [symmetric] by simp
  have "sorted (map f (take n ?ys) @ map f (drop n ?ys))"
    using s by (simp flip: map_append)
  then have "\<forall>a\<in>set (take n ?ys). \<forall>b\<in>set (drop n ?ys). f a \<le> f b"
    by (auto simp: sorted_append)
  then show "\<forall>a\<in>set (take n ?ys). \<forall>b\<in>#mset xs - mset (take n ?ys). f a \<le> f b"
    unfolding d by simp
qed

text \<open>What \<open>sortSlice\<close> leaves is a permutation of the kvs in the order of their keys,
  and every such permutation is left for some \<open>ties\<close>.\<close>

lemma sortSlice_sorted: "sorted (map Key (sortSlice ties kvs)) \<and> mset (sortSlice ties kvs) = mset kvs"
  by (simp add: sortSlice_def mset_permuteBy)

lemma sortSlice_complete:
  assumes "mset ys = mset xs" and "sorted (map Key ys)"
  shows "\<exists>ties. sortSlice ties xs = ys"
proof -
  from permuteBy_complete [OF assms(1)] obtain ties where "permuteBy ties xs = ys"
    by blast
  with assms(2) have "sortSlice ties xs = ys"
    by (simp add: sortSlice_def sort_key_id_if_sorted)
  then show ?thesis by blast
qed

text \<open>The same of what \<^verbatim>\<open>sort.Slice\<close> leaves, however it breaks the ties.\<close>

lemma take_sortSlice:
  assumes "n \<le> length xs"
  shows "sorted (map Key (take n (sortSlice ties xs)))"
    and "length (take n (sortSlice ties xs)) = n"
    and "mset (take n (sortSlice ties xs)) \<subseteq># mset xs"
    and "\<forall>a\<in>set (take n (sortSlice ties xs)).
           \<forall>b\<in>#mset xs - mset (take n (sortSlice ties xs)). Key a \<le> Key b"
proof -
  have n: "n \<le> length (permuteBy ties xs)"
    using assms by (simp add: length_permuteBy)
  show "sorted (map Key (take n (sortSlice ties xs)))"
    using take_sort_key(1) [OF n, of Key] by (simp add: sortSlice_def)
  show "length (take n (sortSlice ties xs)) = n"
    using take_sort_key(2) [OF n, of Key] by (simp add: sortSlice_def)
  show "mset (take n (sortSlice ties xs)) \<subseteq># mset xs"
    using take_sort_key(3) [OF n, of Key] by (simp add: sortSlice_def mset_permuteBy)
  show "\<forall>a\<in>set (take n (sortSlice ties xs)).
          \<forall>b\<in>#mset xs - mset (take n (sortSlice ties xs)). Key a \<le> Key b"
    using take_sort_key(4) [OF n, of Key] by (simp add: sortSlice_def mset_permuteBy)
qed

lemma Range_fanned:
  assumes "Range s ties req = Some (Inr resp, tr)" and "rq_RangeEnd req \<noteq> []"
  shows "\<exists>metaRev acc.
           rs_Kvs acc = mergedKvs s req metaRev \<and> rs_Header acc = \<lparr>Revision = metaRev\<rparr> \<and>
           \<not> rs_More acc \<and> 0 \<le> sint (rq_Limit req) \<and>
           resp = (if rq_Limit req \<noteq> 0 \<and> sint (rq_Limit req) < int (length (rs_Kvs acc))
                   then acc\<lparr>rs_Kvs := take (nat (sint (rq_Limit req))) (sortSlice ties (rs_Kvs acc)),
                            rs_More := True\<rparr>
                   else acc)"
proof -
  from assms obtain metaRev tr0 where m: "rangeMetaRev s req = (Inr metaRev, tr0)"
    by (cases "rangeMetaRev s req") (auto simp: Range_def split: sum.splits)
  with assms obtain acc tr1 where
    f: "rangeFanout s req metaRev = Some ((None, acc), tr1)"
    by (auto simp: Range_def split: option.splits sum.splits prod.splits if_splits)
  from fanout_kvs [OF f [unfolded rangeFanout_def]]
  have acc: "rs_Kvs acc = mergedKvs s req metaRev" "rs_Header acc = \<lparr>Revision = metaRev\<rparr>"
    "\<not> rs_More acc"
    by (simp_all add: mergedKvs_def)
  from assms m f have "0 \<le> sint (rq_Limit req)"
    by (auto simp: Range_def split: if_splits)
  moreover from assms m f have
    "resp = (if rq_Limit req \<noteq> 0 \<and> sint (rq_Limit req) < int (length (rs_Kvs acc))
             then acc\<lparr>rs_Kvs := take (nat (sint (rq_Limit req))) (sortSlice ties (rs_Kvs acc)),
                      rs_More := True\<rparr>
             else acc)"
    by (auto simp: Range_def split: if_splits)
  ultimately show ?thesis
    using acc by blast
qed

text \<open>The cut of an answered request. When a range request with a non-empty \<^verbatim>\<open>RangeEnd\<close>
  is answered, \<^verbatim>\<open>More\<close> is set exactly when \<^verbatim>\<open>Limit > 0\<close> and the number of the kvs merged
  across all members exceeds the limit. Then the kvs of the response are sorted by key,
  ascending in the order of \<^verbatim>\<open>bytes.Compare\<close>, there are \<^verbatim>\<open>Limit\<close> of them, they are taken
  from the merged kvs, and no merged kv that is left out has a smaller key: they are the
  \<^verbatim>\<open>Limit\<close> smallest keys of what the members returned, whatever the order in which the
  members answer and however \<^verbatim>\<open>sort.Slice\<close> breaks the ties. Otherwise the kvs of the
  response are the merged kvs as they are.\<close>

lemma Range_cut_answered:
  assumes "Range s ties req = Some (Inr resp, tr)" and "rq_RangeEnd req \<noteq> []"
  shows "(rs_More resp \<longleftrightarrow>
            0 < sint (rq_Limit req) \<and>
            sint (rq_Limit req) < int (length (mergedKvs s req (Revision (rs_Header resp))))) \<and>
         (rs_More resp \<longrightarrow>
            sorted (map Key (rs_Kvs resp)) \<and>
            int (length (rs_Kvs resp)) = sint (rq_Limit req) \<and>
            mset (rs_Kvs resp) \<subseteq># mset (mergedKvs s req (Revision (rs_Header resp))) \<and>
            (\<forall>a\<in>set (rs_Kvs resp).
               \<forall>b\<in>#mset (mergedKvs s req (Revision (rs_Header resp))) - mset (rs_Kvs resp).
                 Key a \<le> Key b)) \<and>
         (\<not> rs_More resp \<longrightarrow> rs_Kvs resp = mergedKvs s req (Revision (rs_Header resp)))"
proof -
  from Range_fanned [OF assms] obtain metaRev acc where
    acc: "rs_Kvs acc = mergedKvs s req metaRev" "rs_Header acc = \<lparr>Revision = metaRev\<rparr>"
      "\<not> rs_More acc" "0 \<le> sint (rq_Limit req)" and
    resp: "resp = (if rq_Limit req \<noteq> 0 \<and> sint (rq_Limit req) < int (length (rs_Kvs acc))
                   then acc\<lparr>rs_Kvs := take (nat (sint (rq_Limit req))) (sortSlice ties (rs_Kvs acc)),
                            rs_More := True\<rparr>
                   else acc)"
    by blast
  have h: "Revision (rs_Header resp) = metaRev"
    using resp acc(2) by (simp split: if_splits)
  let ?merged = "mergedKvs s req metaRev"
  let ?n = "nat (sint (rq_Limit req))"
  have z: "rq_Limit req \<noteq> 0 \<longleftrightarrow> sint (rq_Limit req) \<noteq> 0"
    by (simp add: signed_eq_0_iff)
  show ?thesis
  proof (cases "rq_Limit req \<noteq> 0 \<and> sint (rq_Limit req) < int (length ?merged)")
    case True
    with resp acc have r: "rs_More resp" "rs_Kvs resp = take ?n (sortSlice ties ?merged)"
      by simp_all
    from True acc(4) z have n: "?n \<le> length ?merged" "0 < sint (rq_Limit req)"
      "int ?n = sint (rq_Limit req)"
      by linarith+
    have len: "int (length (rs_Kvs resp)) = sint (rq_Limit req)"
      using take_sortSlice(2) [OF n(1), of ties] r(2) n(3) by simp
    from take_sortSlice(1,3,4) [OF n(1), of ties] r len n(2) True show ?thesis
      unfolding h by simp
  next
    case False
    with resp acc have r: "\<not> rs_More resp" "rs_Kvs resp = ?merged"
      by simp_all
    with False z acc(4) show ?thesis
      unfolding h by auto
  qed
qed

text \<open>With a limit that is not negative, a fan-out without an error is answered.\<close>

lemma Range_answered:
  assumes "rq_RangeEnd req \<noteq> []" and "rangeMetaRev s req = (Inr metaRev, tr)"
    and "rangeFanout s req metaRev = Some ((None, acc), tr')" and "0 \<le> sint (rq_Limit req)"
  shows "\<exists>resp. Range s ties req = Some (Inr resp, tr @ tr')"
  using assms by (simp add: Range_def)

lemma rangeExample:
  "Range rangeServer [] rangeRequest =
     Some (Inr \<lparr>rs_Header = \<lparr>Revision = 10\<rparr>,
                rs_Kvs = [\<lparr>Key = bytes_of ''a'', CreateRevision = 2, ModRevision = 8, Version = 1,
                           Value = bytes_of ''x''\<rparr>],
                rs_More = True, rs_Count = 2\<rparr>,
           [RpcGet (Member 0) MetaKey 0, RpcRange 0 (rangeRequest\<lparr>rq_Revision := 3\<rparr>),
            RpcGet (Member 1) MetaKey 0, RpcRange 1 (rangeRequest\<lparr>rq_Revision := 2\<rparr>)])"
  by code_simp

text \<open>A range read with a negative limit is not answered: the test of the source is
  \<^verbatim>\<open>req.Limit != 0\<close>, the number of the kvs is not below 0, so the request enters the cut
  whatever the members return, and the slice \<^verbatim>\<open>resp.Kvs[:req.Limit]\<close> panics.\<close>

lemma Range_negative_limit:
  assumes "rq_RangeEnd req \<noteq> []" and "rangeMetaRev s req = (Inr metaRev, tr)"
    and "rangeFanout s req metaRev = Some (r, tr')" and "sint (rq_Limit req) < 0"
  shows "Range s ties req = Some (Inl Panic, tr @ tr')"
proof -
  obtain err acc where r: "r = (err, acc)" by (cases r)
  from assms(4) have "rq_Limit req \<noteq> 0"
    by auto
  with assms r show ?thesis
    by (simp add: Range_def)
qed

lemma Range_negative_limit_unanswered:
  assumes "rq_RangeEnd req \<noteq> []" and "sint (rq_Limit req) < 0"
  shows "Range s ties req \<noteq> Some (Inr resp, tr)"
  using Range_fanned [of s ties req resp tr] assms by auto

lemma negativeLimit_fanout:
  "rangeFanout rangeServer negativeLimitRequest 10 =
     Some ((None,
            \<lparr>rs_Header = \<lparr>Revision = 10\<rparr>,
             rs_Kvs = [\<lparr>Key = bytes_of ''b'', CreateRevision = 3, ModRevision = 9, Version = 1,
                        Value = bytes_of ''y''\<rparr>,
                       \<lparr>Key = bytes_of ''a'', CreateRevision = 2, ModRevision = 8, Version = 1,
                        Value = bytes_of ''x''\<rparr>],
             rs_More = False, rs_Count = 2\<rparr>),
           [RpcGet (Member 0) MetaKey 0, RpcRange 0 (negativeLimitRequest\<lparr>rq_Revision := 3\<rparr>),
            RpcGet (Member 1) MetaKey 0, RpcRange 1 (negativeLimitRequest\<lparr>rq_Revision := 2\<rparr>)])"
  by code_simp

text \<open>
  Claim C5 says that the kvs of a range request with a non-empty \<^verbatim>\<open>RangeEnd\<close> are sorted
  and cut exactly when \<^verbatim>\<open>Limit > 0\<close> and the number of the kvs merged across all members
  exceeds the limit. The test of the source is \<^verbatim>\<open>req.Limit != 0\<close>: the request for the keys
  from \<open>a\<close> to \<open>z\<close> with the limit -1, for which the members return two kvs, enters the
  cut, and the slice \<^verbatim>\<open>resp.Kvs[:-1]\<close> panics after the two members have been read. Under
  the claim the limit -1 cuts nothing and the two kvs are returned.
\<close>

theorem Range_negative_limit_panics:
  "rq_RangeEnd negativeLimitRequest = bytes_of ''z'' \<and>
   sint (rq_Limit negativeLimitRequest) = - 1 \<and>
   length (mergedKvs rangeServer negativeLimitRequest 10) = 2 \<and>
   (\<forall>ties. Range rangeServer ties negativeLimitRequest =
      Some (Inl Panic,
            [RpcGet (Member 0) MetaKey 0, RpcRange 0 (negativeLimitRequest\<lparr>rq_Revision := 3\<rparr>),
             RpcGet (Member 1) MetaKey 0, RpcRange 1 (negativeLimitRequest\<lparr>rq_Revision := 2\<rparr>)]))"
proof -
  have e: "rq_RangeEnd negativeLimitRequest = bytes_of ''z''"
    by (simp add: negativeLimitRequest_def rangeRequest_def)
  have ne: "rq_RangeEnd negativeLimitRequest \<noteq> []"
    by (simp add: e bytes_of_def)
  have l: "sint (rq_Limit negativeLimitRequest) = - 1"
    by (simp add: negativeLimitRequest_def)
  have m: "rangeMetaRev rangeServer negativeLimitRequest = (Inr 10, [])"
    by (simp add: rangeMetaRev_def negativeLimitRequest_def rangeRequest_def)
  have n: "length (mergedKvs rangeServer negativeLimitRequest 10) = 2"
    by code_simp
  from Range_negative_limit [OF ne m negativeLimit_fanout] l e n show ?thesis
    by simp
qed

section \<open>LeaseGrant\<close>

lemma IterateMembers_grant:
  "list_all (\<lambda>c. \<exists>resp. cs_LeaseGrant c req = Inr resp \<and> ls_Error resp = []) (map snd ics) \<Longrightarrow>
   IterateMembers ics (grantMember req) () =
     ((None, ()), map (\<lambda>ic. RpcLeaseGrant (fst ic) req) ics)"
proof (induction ics)
  case Nil
  then show ?case by simp
next
  case (Cons ic ics)
  obtain i c where ic: "ic = (i, c)" by (cases ic)
  from Cons.prems ic obtain resp where "cs_LeaseGrant c req = Inr resp" "ls_Error resp = []"
    by auto
  then have "grantMember req i c () = (Inr (), [RpcLeaseGrant i req])"
    by (simp add: grantMember_def)
  with Cons ic show ?case by simp
qed

text \<open>A drawn id that is not 0 is sent to every member and returned, when every member
  grants the lease.\<close>

lemma LeaseGrant_shared_id:
  assumes "lq_ID req = 0"
    and "list_all (\<lambda>c. \<exists>resp. cs_LeaseGrant c (req\<lparr>lq_ID := ucast Int63\<rparr>) = Inr resp \<and>
                          ls_Error resp = []) (clients (members s))"
  shows "LeaseGrant s Int63 req =
           (Inr \<lparr>ls_ID = ucast Int63, ls_TTL = lq_TTL req, ls_Error = []\<rparr>,
            map (\<lambda>i. RpcLeaseGrant i (req\<lparr>lq_ID := ucast Int63\<rparr>))
              (map fst (fanoutOrder (members s))))"
proof -
  have "list_all (\<lambda>c. \<exists>resp. cs_LeaseGrant c (req\<lparr>lq_ID := ucast Int63\<rparr>) = Inr resp \<and>
                          ls_Error resp = []) (map snd (fanoutOrder (members s)))"
    using assms(2) set_fanoutOrder_members [of "members s"]
    by (simp add: list_all_iff)
  from IterateMembers_grant [OF this]
  have "IterateMembers (fanoutOrder (members s)) (grantMember (req\<lparr>lq_ID := ucast Int63\<rparr>)) () =
          ((None, ()), map (\<lambda>i. RpcLeaseGrant i (req\<lparr>lq_ID := ucast Int63\<rparr>))
                          (map fst (fanoutOrder (members s))))"
    by simp
  with assms(1) show ?thesis
    by (simp add: LeaseGrant_def)
qed

text \<open>
  Claim C9 says that a request with id 0 is given a random id that is not 0, which is
  sent to every member and returned. The id is the value that \<^verbatim>\<open>rand.Int63()\<close> draws,
  and that can be 0: then every member is sent the id 0 (and chooses an id of its own),
  and the response carries the id 0.
\<close>

theorem LeaseGrant_zero_draw:
  "LeaseGrant runningServer 0 \<lparr>lq_TTL = 60, lq_ID = 0\<rparr> =
     (Inr \<lparr>ls_ID = 0, ls_TTL = 60, ls_Error = []\<rparr>,
      [RpcLeaseGrant 0 \<lparr>lq_TTL = 60, lq_ID = 0\<rparr>, RpcLeaseGrant 1 \<lparr>lq_TTL = 60, lq_ID = 0\<rparr>])"
  by code_simp

end
